theory Spec2Isabelle
  imports Main
begin

section \<open>RcSocket: a reconnecting WebSocket wrapper\<close>

text \<open>
  A shallow embedding of \<^verbatim>\<open>src/dist/common/rc-socket.js\<close>. The object's fields are a
  record; every method is a function from the state to the updated state. The host
  environment (the timer table behind \<^verbatim>\<open>setTimeout\<close>/\<^verbatim>\<open>clearTimeout\<close>, the clock,
  the native WebSocket objects and everything the object calls on them or on the owner's
  handlers) is part of the same record, so that a run of the object is a fold of
  \<open>step\<close> over a list of events.

  What the host is taken to do: a timer fires when it is due or at any later time, in any
  order with the other due timers; a native socket signals open at most once and close
  exactly once, and nothing after its close signal; a call of \<^verbatim>\<open>ws.send\<close>, \<^verbatim>\<open>ws.close\<close>,
  the logger or an owner's handler is recorded in \<open>outputs\<close> and returns, and a handler
  does not call back into the object before it returns (the owner's calls are events of
  their own). Numbers are natural numbers of milliseconds.

  An Isabelle name cannot begin with the underscore of the private methods:
  \<^verbatim>\<open>_connect\<close> is \<open>priv_connect\<close>, and so on.
\<close>

subsection \<open>Data\<close>

text \<open>A value handed to \<^verbatim>\<open>send\<close>. Reading \<^verbatim>\<open>queue[index]\<close> past the end of the array
  gives \<^verbatim>\<open>undefined\<close>.\<close>

datatype payload = Undefined | Data string

text \<open>The handler slots \<^verbatim>\<open>_trigger\<close> is called with.\<close>

datatype evname = OnConnecting | OnOpen | OnClose | OnMessage | OnError | OnTimeout

text \<open>The event object handed to a handler: none (\<^verbatim>\<open>_trigger('ontimeout')\<close>), the
  native event as it came, or the native close event after \<^verbatim>\<open>_onclose\<close> has written
  \<^verbatim>\<open>forced\<close>, \<^verbatim>\<open>isRetrying\<close> and \<^verbatim>\<open>isRefreshing\<close> on it.\<close>

datatype evt = NoEvt | RawEvt | CloseEvt (forced: bool) (evtRetrying: bool) (evtRefreshing: bool)

text \<open>What the object does to the outside: \<^verbatim>\<open>new WebSocket\<close> (the handle and the
  \<^verbatim>\<open>id = Date.now()\<close> written on it), \<^verbatim>\<open>ws.send\<close>, \<^verbatim>\<open>ws.close\<close>,
  \<^verbatim>\<open>logger.debug\<close> and a call of one of the owner's handlers.\<close>

datatype effect =
    WsNew nat nat
  | WsSend nat payload
  | WsCloseCall nat
  | LoggerDebug evname string evt
  | Handler evname evt

text \<open>The three callbacks the object ever gives to \<^verbatim>\<open>setTimeout\<close>:
  \<^verbatim>\<open>this._connect\<close>, the connect timeout of \<^verbatim>\<open>_connect\<close>, and the delayed send of
  \<^verbatim>\<open>_delayQueueSend\<close> with the index it closes over.\<close>

datatype action = Connect | ConnectTimeout | QueueSend nat

record timer =
  tid :: nat
  due :: nat
  act :: action

text \<open>A native WebSocket as far as its signals go: it may still signal open
  (\<open>TConnecting\<close>), it has signalled open (\<open>TOpen\<close>), or it has signalled close and is
  dead (\<open>TClosed\<close>).\<close>

datatype tstatus = TConnecting | TOpen | TClosed

text \<open>The constants \<^verbatim>\<open>WebSocket.CONNECTING\<close>, \<^verbatim>\<open>OPEN\<close>, \<^verbatim>\<open>CLOSING\<close>, \<^verbatim>\<open>CLOSED\<close>.\<close>

definition WS_CONNECTING :: nat where "WS_CONNECTING = 0"
definition WS_OPEN :: nat where "WS_OPEN = 1"
definition WS_CLOSING :: nat where "WS_CLOSING = 2"
definition WS_CLOSED :: nat where "WS_CLOSED = 3"

record state =
  url :: string
  protocols :: "string list"
  debug :: bool
  debugAll :: bool
  timeout :: nat
  maxRetry :: nat
  delay :: nat
  handlers :: "evname set"
  hasUnloaded :: bool
  hasOpened :: bool
  wasForced :: bool
  isRetrying :: bool
  isRefreshing :: bool
  attempts :: nat
  queue :: "payload list"
  ws :: "nat option"
  readyState :: "nat option"
  connectTimer :: "nat option"
  now :: nat
  timers :: "timer list"
  nextTimer :: nat
  sockets :: "tstatus list"
  outputs :: "effect list"

text \<open>
  \<open>ws\<close> is \<^verbatim>\<open>this.ws\<close>: the handle of a native socket, an index into \<open>sockets\<close>, or
  \<open>None\<close> for \<^verbatim>\<open>undefined\<close>/\<^verbatim>\<open>null\<close>. \<open>readyState\<close> is \<^verbatim>\<open>this.readyState\<close>,
  \<^verbatim>\<open>undefined\<close> until \<^verbatim>\<open>_stateChanged\<close> first writes it. \<open>handlers\<close> is the set of
  slots (\<^verbatim>\<open>this.onopen\<close>, ...) the owner has assigned; \<open>debugAll\<close> is the static
  \<^verbatim>\<open>RcSocket.debugAll\<close>. Times and delays are whole milliseconds.
\<close>

subsection \<open>The host: truthiness, arrays, timers\<close>

text \<open>\<^verbatim>\<open>if (this.readyState)\<close>: \<^verbatim>\<open>undefined\<close> and \<open>0\<close> are falsy.\<close>

fun truthy :: "nat option \<Rightarrow> bool" where
  "truthy None = False"
| "truthy (Some n) = (n \<noteq> 0)"

text \<open>\<^verbatim>\<open>queue[index]\<close>: \<^verbatim>\<open>undefined\<close> out of range.\<close>

definition js_nth :: "payload list \<Rightarrow> nat \<Rightarrow> payload" where
  "js_nth xs i = (if i < length xs then xs ! i else Undefined)"

text \<open>\<^verbatim>\<open>setTimeout(f, d)\<close> adds a timer due \<open>d\<close> ms from now; its handle is the value of
  \<open>nextTimer\<close> before the call. \<^verbatim>\<open>clearTimeout(h)\<close> drops the timer with that handle,
  and does nothing for \<^verbatim>\<open>undefined\<close> or a handle that is gone.\<close>

definition setTimeout :: "action \<Rightarrow> nat \<Rightarrow> state \<Rightarrow> state" where
  "setTimeout a d s =
     s\<lparr>timers := timers s @ [\<lparr>tid = nextTimer s, due = now s + d, act = a\<rparr>],
       nextTimer := Suc (nextTimer s)\<rparr>"

definition clearTimeout :: "nat option \<Rightarrow> state \<Rightarrow> state" where
  "clearTimeout h s =
     (case h of
        None \<Rightarrow> s
      | Some i \<Rightarrow> s\<lparr>timers := filter (\<lambda>t. tid t \<noteq> i) (timers s)\<rparr>)"

definition emit :: "effect \<Rightarrow> state \<Rightarrow> state" where
  "emit x s = s\<lparr>outputs := outputs s @ [x]\<rparr>"

subsection \<open>Helpers: \<^verbatim>\<open>_trigger\<close>, \<^verbatim>\<open>_stateChanged\<close>\<close>

text \<open>What one call of \<^verbatim>\<open>_trigger(evtName, evt)\<close> does to the outside: a line on the
  logger when \<^verbatim>\<open>this.debug || RcSocket.debugAll\<close>, then the handler when the slot is
  assigned.\<close>

definition triggered :: "evname \<Rightarrow> evt \<Rightarrow> state \<Rightarrow> effect list" where
  "triggered n e s =
     (if debug s \<or> debugAll s then [LoggerDebug n (url s) e] else []) @
     (if n \<in> handlers s then [Handler n e] else [])"

definition priv_trigger :: "evname \<Rightarrow> evt \<Rightarrow> state \<Rightarrow> state" where
  "priv_trigger n e s = s\<lparr>outputs := outputs s @ triggered n e s\<rparr>"

definition priv_stateChanged :: "nat \<Rightarrow> evname \<Rightarrow> evt \<Rightarrow> state \<Rightarrow> state" where
  "priv_stateChanged st n e s = priv_trigger n e (s\<lparr>readyState := Some st\<rparr>)"

subsection \<open>The public methods\<close>

text \<open>\<^verbatim>\<open>if (this.ws && this.readyState) return this.ws.send(data);
  this.queue.unshift(data);\<close>\<close>

definition send :: "payload \<Rightarrow> state \<Rightarrow> state" where
  "send d s =
     (case ws s of
        Some w \<Rightarrow>
          if truthy (readyState s) then emit (WsSend w d) s
          else s\<lparr>queue := d # queue s\<rparr>
      | None \<Rightarrow> s\<lparr>queue := d # queue s\<rparr>)"

text \<open>\<^verbatim>\<open>_close\<close>: \<^verbatim>\<open>if (this.ws) this.ws.close();\<close>\<close>

definition priv_close :: "state \<Rightarrow> state" where
  "priv_close s = (case ws s of Some w \<Rightarrow> emit (WsCloseCall w) s | None \<Rightarrow> s)"

definition close :: "state \<Rightarrow> state" where
  "close s = priv_close (s\<lparr>wasForced := True\<rparr>)"

definition retry :: "state \<Rightarrow> state" where
  "retry s = priv_close (s\<lparr>isRetrying := True\<rparr>)"

definition refresh :: "state \<Rightarrow> state" where
  "refresh s = priv_close (s\<lparr>isRefreshing := True\<rparr>)"

subsection \<open>WebSocket management\<close>

text \<open>\<^verbatim>\<open>_connect\<close>: a new native socket (its handle is the next index of \<open>sockets\<close>),
  the connect timeout armed and its handle kept in \<^verbatim>\<open>connectTimer\<close>, then
  \<^verbatim>\<open>_stateChanged('CONNECTING', 'onconnecting')\<close>.\<close>

definition priv_connect :: "state \<Rightarrow> state" where
  "priv_connect s =
     (let w = length (sockets s);
          s1 = emit (WsNew w (now s)) (s\<lparr>ws := Some w, sockets := sockets s @ [TConnecting]\<rparr>);
          s2 = (setTimeout ConnectTimeout (timeout s1) s1)\<lparr>connectTimer := Some (nextTimer s1)\<rparr>
      in priv_stateChanged WS_CONNECTING OnConnecting NoEvt s2)"

text \<open>\<^verbatim>\<open>_reconnect\<close>: the interval from \<^verbatim>\<open>attempts\<close> as it is on entry, then
  \<^verbatim>\<open>attempts++\<close>, then the timer.\<close>

definition interval :: "state \<Rightarrow> nat" where
  "interval s =
     (if (2 ^ attempts s - 1) * 1000 > maxRetry s then maxRetry s
      else (2 ^ attempts s - 1) * 1000)"

definition priv_reconnect :: "state \<Rightarrow> state" where
  "priv_reconnect s = setTimeout Connect (interval s) (s\<lparr>attempts := attempts s + 1\<rparr>)"

text \<open>\<^verbatim>\<open>_delayQueueSend(index, delayMultiplier)\<close> and the loop of \<^verbatim>\<open>_sendQueued\<close>:
  \<^verbatim>\<open>while (index--)\<close> tests \<open>index\<close>, decrements it, and the body sees the decremented
  value.\<close>

definition priv_delayQueueSend :: "nat \<Rightarrow> nat \<Rightarrow> state \<Rightarrow> state" where
  "priv_delayQueueSend index delayMultiplier s =
     setTimeout (QueueSend index) (delay s * delayMultiplier) s"

fun sendQueued_loop :: "nat \<Rightarrow> nat \<Rightarrow> state \<Rightarrow> state" where
  "sendQueued_loop len 0 s = s"
| "sendQueued_loop len (Suc index) s =
     sendQueued_loop len index (priv_delayQueueSend index (len - index) s)"

definition priv_sendQueued :: "state \<Rightarrow> state" where
  "priv_sendQueued s = sendQueued_loop (length (queue s)) (length (queue s)) s"

text \<open>\<^verbatim>\<open>_onopen\<close>.\<close>

definition priv_onopen :: "evt \<Rightarrow> state \<Rightarrow> state" where
  "priv_onopen e s =
     (let s1 = clearTimeout (connectTimer s) s
      in if wasForced s1 then close s1
         else priv_sendQueued
                (priv_stateChanged WS_OPEN OnOpen e (s1\<lparr>hasOpened := True, attempts := 1\<rparr>)))"

text \<open>\<^verbatim>\<open>_onclose\<close>. \<open>annotate\<close> is the three assignments to \<^verbatim>\<open>evt.forced\<close>,
  \<^verbatim>\<open>evt.isRetrying\<close> and \<^verbatim>\<open>evt.isRefreshing\<close>.\<close>

definition annotate :: "state \<Rightarrow> evt" where
  "annotate s = CloseEvt (wasForced s) (isRetrying s) (isRefreshing s)"

definition priv_onclose :: "evt \<Rightarrow> state \<Rightarrow> state" where
  "priv_onclose e s =
     (let s1 = (clearTimeout (connectTimer s) s)\<lparr>ws := None\<rparr>;
          evt = annotate s1
      in if wasForced s1 then priv_stateChanged WS_CLOSED OnClose evt s1
         else if \<not> hasUnloaded s1 then
           (let s2 = (if hasOpened s1 then priv_trigger OnClose evt s1 else s1)
            in priv_reconnect (s2\<lparr>isRetrying := False, isRefreshing := False, hasOpened := False\<rparr>))
         else s1)"

definition priv_onmessage :: "evt \<Rightarrow> state \<Rightarrow> state" where
  "priv_onmessage e s = priv_trigger OnMessage e s"

definition priv_onerror :: "evt \<Rightarrow> state \<Rightarrow> state" where
  "priv_onerror e s = priv_trigger OnError e s"

subsection \<open>The constructor\<close>

text \<open>The fields as the constructor sets them, at time 0, with the first \<^verbatim>\<open>_connect\<close>
  deferred by \<^verbatim>\<open>setTimeout(..., 0)\<close>. The handler it puts on \<^verbatim>\<open>window.onbeforeunload\<close>
  is the event \<open>BeforeUnload\<close> below; no handler slot is assigned yet and the static
  \<^verbatim>\<open>debugAll\<close> is unset.\<close>

definition RcSocket :: "string \<Rightarrow> string list \<Rightarrow> state" where
  "RcSocket u p =
     setTimeout Connect 0
       \<lparr>url = u, protocols = p, debug = False, debugAll = False,
        timeout = 2500, maxRetry = 1000, delay = 100, handlers = {},
        hasUnloaded = False, hasOpened = False, wasForced = False,
        isRetrying = False, isRefreshing = False, attempts = 1, queue = [],
        ws = None, readyState = None, connectTimer = None,
        now = 0, timers = [], nextTimer = 0, sockets = [], outputs = []\<rparr>"

subsection \<open>Timer callbacks and events\<close>

text \<open>The body of each callback: \<^verbatim>\<open>_connect\<close>; \<^verbatim>\<open>this._trigger('ontimeout');
  this.retry();\<close>; and \<^verbatim>\<open>this.send(this.queue[index]); this.queue.pop();\<close>\<close>

fun callback :: "action \<Rightarrow> state \<Rightarrow> state" where
  "callback Connect s = priv_connect s"
| "callback ConnectTimeout s = retry (priv_trigger OnTimeout NoEvt s)"
| "callback (QueueSend index) s =
     (let s1 = send (js_nth (queue s) index) s
      in s1\<lparr>queue := butlast (queue s1)\<rparr>)"

text \<open>
  Everything that can happen to the object: a call of the owner (the four methods, an
  assignment to a configuration field or a handler slot), the page's
  \<^verbatim>\<open>onbeforeunload\<close>, a signal of a native socket, a timer that fires, time that
  passes. An event that cannot happen in the state (a signal of a socket that is dead or
  was never made, a second open signal, a timer that is not pending or not yet due)
  changes nothing. A native socket may signal open after \<^verbatim>\<open>close()\<close> was called on it,
  which is the case \<^verbatim>\<open>_onopen\<close> guards against.
\<close>

datatype event =
    Send payload | Close | Retry | Refresh
  | SetDebug bool | SetDebugAll bool | SetTimeout nat | SetMaxRetry nat | SetDelay nat
  | SetHandler evname bool
  | BeforeUnload
  | WsOpen nat | WsClose nat | WsMessage nat | WsError nat
  | Fire nat
  | Elapse nat

definition status :: "state \<Rightarrow> nat \<Rightarrow> tstatus" where
  "status s w = (if w < length (sockets s) then sockets s ! w else TClosed)"

definition fire :: "nat \<Rightarrow> state \<Rightarrow> state" where
  "fire i s =
     (case find (\<lambda>t. tid t = i) (timers s) of
        None \<Rightarrow> s
      | Some t \<Rightarrow>
          if due t \<le> now s
          then callback (act t) (s\<lparr>timers := filter (\<lambda>t. tid t \<noteq> i) (timers s)\<rparr>)
          else s)"

fun step :: "event \<Rightarrow> state \<Rightarrow> state" where
  "step (Send d) s = send d s"
| "step Close s = close s"
| "step Retry s = retry s"
| "step Refresh s = refresh s"
| "step (SetDebug b) s = s\<lparr>debug := b\<rparr>"
| "step (SetDebugAll b) s = s\<lparr>debugAll := b\<rparr>"
| "step (SetTimeout n) s = s\<lparr>timeout := n\<rparr>"
| "step (SetMaxRetry n) s = s\<lparr>maxRetry := n\<rparr>"
| "step (SetDelay n) s = s\<lparr>delay := n\<rparr>"
| "step (SetHandler n b) s =
     s\<lparr>handlers := (if b then insert n (handlers s) else handlers s - {n})\<rparr>"
| "step BeforeUnload s = s\<lparr>hasUnloaded := True\<rparr>"
| "step (WsOpen w) s =
     (if status s w = TConnecting
      then priv_onopen RawEvt (s\<lparr>sockets := (sockets s)[w := TOpen]\<rparr>)
      else s)"
| "step (WsClose w) s =
     (if status s w \<noteq> TClosed
      then priv_onclose RawEvt (s\<lparr>sockets := (sockets s)[w := TClosed]\<rparr>)
      else s)"
| "step (WsMessage w) s = (if status s w = TOpen then priv_onmessage RawEvt s else s)"
| "step (WsError w) s = (if status s w \<noteq> TClosed then priv_onerror RawEvt s else s)"
| "step (Fire i) s = fire i s"
| "step (Elapse d) s = s\<lparr>now := now s + d\<rparr>"

fun run :: "event list \<Rightarrow> state \<Rightarrow> state" where
  "run [] s = s"
| "run (e # es) s = run es (step e s)"

subsection \<open>Derived notions\<close>

text \<open>The timers the loop of \<^verbatim>\<open>_sendQueued\<close> arms when it starts at \<open>index\<close>: the
  \<open>j\<close>-th of them (from 0) closes over the index \<open>index - 1 - j\<close>.\<close>

definition flush_timers :: "state \<Rightarrow> nat \<Rightarrow> nat \<Rightarrow> timer list" where
  "flush_timers s len index =
     map (\<lambda>j. \<lparr>tid = nextTimer s + j, due = now s + delay s * (len - (index - Suc j)),
               act = QueueSend (index - Suc j)\<rparr>) [0..<index]"

text \<open>The two guards of \<^verbatim>\<open>_onclose\<close>: the branch that ends in \<^verbatim>\<open>_reconnect\<close>, and the
  cases in which \<^verbatim>\<open>_trigger('onclose', evt)\<close> is reached at all.\<close>

definition reconnects :: "state \<Rightarrow> bool" where
  "reconnects s \<longleftrightarrow> \<not> wasForced s \<and> \<not> hasUnloaded s"

definition reports :: "state \<Rightarrow> bool" where
  "reports s \<longleftrightarrow> wasForced s \<or> (\<not> hasUnloaded s \<and> hasOpened s)"

text \<open>The timer table after \<^verbatim>\<open>clearTimeout(this.connectTimer)\<close>.\<close>

definition cleared :: "state \<Rightarrow> timer list" where
  "cleared s = filter (\<lambda>t. Some (tid t) \<noteq> connectTimer s) (timers s)"

text \<open>The steps that call \<^verbatim>\<open>_reconnect\<close> (a close signal of a live socket, neither
  forced nor after unload), and the steps that set the state to \<^verbatim>\<open>OPEN\<close> (the open
  signal of a connecting socket while \<^verbatim>\<open>wasForced\<close> is not set).\<close>

definition enters_wait :: "event \<Rightarrow> state \<Rightarrow> bool" where
  "enters_wait e s =
     (case e of WsClose w \<Rightarrow> status s w \<noteq> TClosed \<and> reconnects s | _ \<Rightarrow> False)"

definition reaches_open :: "event \<Rightarrow> state \<Rightarrow> bool" where
  "reaches_open e s =
     (case e of WsOpen w \<Rightarrow> status s w = TConnecting \<and> \<not> wasForced s | _ \<Rightarrow> False)"

subsection \<open>Invariants of the reachable states\<close>

definition inv_attempts :: "state \<Rightarrow> bool" where
  "inv_attempts s \<longleftrightarrow> 1 \<le> attempts s"

definition inv_ready :: "state \<Rightarrow> bool" where
  "inv_ready s \<longleftrightarrow>
     (ws s \<noteq> None \<longrightarrow> readyState s = Some WS_CONNECTING \<or> readyState s = Some WS_OPEN)"

text \<open>
  The connection invariant: the live native sockets are exactly \<^verbatim>\<open>this.ws\<close> (so there
  is at most one); a pending connect has no socket beside it and no second pending connect; a
  pending connect timeout is the one \<^verbatim>\<open>connectTimer\<close> names and belongs to a socket
  that has not signalled open; \<^verbatim>\<open>hasOpened\<close> excludes a pending connect and a
  connecting socket; and in the state \<^verbatim>\<open>CLOSED\<close> the close was forced and neither a
  socket nor a pending connect is left.
\<close>

definition inv_conn :: "state \<Rightarrow> bool" where
  "inv_conn s \<longleftrightarrow>
     (\<forall>w. status s w \<noteq> TClosed \<longleftrightarrow> ws s = Some w) \<and>
     (\<forall>t \<in> set (timers s). act t = Connect \<longrightarrow>
        ws s = None \<and> (\<forall>t' \<in> set (timers s). act t' = Connect \<longrightarrow> tid t' = tid t)) \<and>
     (\<forall>t \<in> set (timers s). act t = ConnectTimeout \<longrightarrow>
        connectTimer s = Some (tid t) \<and> (\<exists>w. ws s = Some w \<and> status s w = TConnecting)) \<and>
     (hasOpened s \<longrightarrow>
        (\<forall>t \<in> set (timers s). act t \<noteq> Connect) \<and> (\<forall>w. status s w \<noteq> TConnecting)) \<and>
     (readyState s = Some WS_CLOSED \<longrightarrow>
        wasForced s \<and> ws s = None \<and> (\<forall>t \<in> set (timers s). act t \<noteq> Connect))"

text \<open>Timer handles are never used twice: the handle of a pending timer is below the next
  handle \<^verbatim>\<open>setTimeout\<close> gives out.\<close>

definition inv_timers :: "state \<Rightarrow> bool" where
  "inv_timers s \<longleftrightarrow> (\<forall>t \<in> set (timers s). tid t < nextTimer s)"

text \<open>And no two pending timers have the same handle.\<close>

definition inv_distinct :: "state \<Rightarrow> bool" where
  "inv_distinct s \<longleftrightarrow> distinct (map tid (timers s))"

subsection \<open>Notions the claims are stated with\<close>

text \<open>The queued payloads in the order they were sent, oldest first. \<^verbatim>\<open>send\<close> puts a
  payload at the front of the array (\<^verbatim>\<open>unshift\<close>), so the array holds the newest first and
  the oldest at its last index.\<close>

definition pendingQueue :: "state \<Rightarrow> payload list" where
  "pendingQueue s = rev (queue s)"

text \<open>The event fires a pending, due timer whose callback is \<open>a\<close>.\<close>

definition fires :: "action \<Rightarrow> event \<Rightarrow> state \<Rightarrow> bool" where
  "fires a e s =
     (case e of
        Fire i \<Rightarrow>
          (case find (\<lambda>t. tid t = i) (timers s) of
             Some t \<Rightarrow> act t = a \<and> due t \<le> now s
           | None \<Rightarrow> False)
      | _ \<Rightarrow> False)"

text \<open>The event is the open signal of a socket that has not opened, or the close signal of
  a socket that has not closed: the events \<open>step\<close> hands to \<^verbatim>\<open>_onopen\<close> and
  \<^verbatim>\<open>_onclose\<close>.\<close>

definition signals :: "event \<Rightarrow> state \<Rightarrow> bool" where
  "signals e s =
     (case e of
        WsOpen w \<Rightarrow> status s w = TConnecting
      | WsClose w \<Rightarrow> status s w \<noteq> TClosed
      | _ \<Rightarrow> False)"

text \<open>The due times of the pending connect timeouts, and the due time of the connect timeout
  of the attempt under way after the events \<open>es\<close>: a step that starts a connect attempt sets
  it to \<^verbatim>\<open>timeout\<close> ms from then, an open or close signal and the firing of the connect
  timeout take it away, and every other step leaves it.\<close>

definition timeouts :: "state \<Rightarrow> nat list" where
  "timeouts s = map due (filter (\<lambda>t. act t = ConnectTimeout) (timers s))"

fun deadline :: "event list \<Rightarrow> state \<Rightarrow> nat option \<Rightarrow> nat option" where
  "deadline [] s d = d"
| "deadline (e # es) s d =
     deadline es (step e s)
       (if fires Connect e s then Some (now s + timeout s)
        else if signals e s \<or> fires ConnectTimeout e s then None
        else d)"

text \<open>What a step adds to \<open>outputs\<close>, and whether an effect is a notification of the
  event \<open>n\<close> (the logger's line or the handler's call).\<close>

definition news :: "event \<Rightarrow> state \<Rightarrow> effect list" where
  "news e s = drop (length (outputs s)) (outputs (step e s))"

fun notifies :: "evname \<Rightarrow> effect \<Rightarrow> bool" where
  "notifies n (LoggerDebug m u e) = (m = n)"
| "notifies n (Handler m e) = (m = n)"
| "notifies n x = False"

text \<open>An undisturbed flush: the timers \<^verbatim>\<open>_sendQueued\<close> arms for a queue of \<open>n\<close>
  entries when the next handle is \<open>h\<close>, the time \<open>t0\<close> and the delay \<open>d\<close>, and the events
  in which they fire one after the other, each \<open>d\<close> ms after the one before.\<close>

definition flush_timer :: "nat \<Rightarrow> nat \<Rightarrow> nat \<Rightarrow> nat \<Rightarrow> nat \<Rightarrow> timer" where
  "flush_timer h t0 d n j = \<lparr>tid = h + j, due = t0 + d * Suc j, act = QueueSend (n - Suc j)\<rparr>"

definition flush_events :: "nat \<Rightarrow> nat \<Rightarrow> nat \<Rightarrow> nat \<Rightarrow> event list" where
  "flush_events d h k n = concat (map (\<lambda>j. [Elapse d, Fire (h + j)]) [k..<n])"

text \<open>The connect attempts made so far (the \<^verbatim>\<open>new WebSocket\<close> calls among the
  effects) and the connects that are scheduled.\<close>

fun isWsNew :: "effect \<Rightarrow> bool" where
  "isWsNew (WsNew w i) = True"
| "isWsNew x = False"

definition connects :: "state \<Rightarrow> nat" where
  "connects s = length (filter isWsNew (outputs s))"

definition pendingConnects :: "state \<Rightarrow> nat" where
  "pendingConnects s = length (filter (\<lambda>t. act t = Connect) (timers s))"

subsection \<open>Example states\<close>

text \<open>The owner assigns \<^verbatim>\<open>onclose\<close>; then the deferred first connect has run
  (\<open>connecting_example\<close>), its socket has opened (\<open>open_example\<close>), or its socket has
  closed before opening and the reconnect timer is pending (\<open>waiting\<close>).\<close>

definition connecting_example :: state where
  "connecting_example = run [SetHandler OnClose True, Fire 0] (RcSocket ''ws://host'' [])"

definition open_example :: state where
  "open_example = run [SetHandler OnClose True, Fire 0, WsOpen 0] (RcSocket ''ws://host'' [])"

definition waiting :: state where
  "waiting = run [SetHandler OnClose True, Fire 0, WsClose 0] (RcSocket ''ws://host'' [])"

text \<open>\<^verbatim>\<open>close()\<close> is called during the reconnect wait and the reconnect timer has fired
  (\<open>forced_connecting\<close>); the first connect attempt has run for 2500 ms without a signal
  (\<open>timing_out\<close>).\<close>

definition forced_connecting :: state where
  "forced_connecting =
     run [SetHandler OnOpen True, SetHandler OnClose True, Fire 0, WsClose 0, Close,
          Elapse 1000, Fire 2] (RcSocket ''ws://host'' [])"

definition timing_out :: state where
  "timing_out = run [SetHandler OnTimeout True, Fire 0, Elapse 2500] (RcSocket ''ws://host'' [])"

section \<open>Normal forms of the handlers\<close>

lemmas ops =
  send_def priv_close_def close_def retry_def refresh_def priv_connect_def
  priv_reconnect_def priv_delayQueueSend_def priv_onopen_def priv_onclose_def
  priv_onmessage_def priv_onerror_def priv_trigger_def priv_stateChanged_def
  setTimeout_def clearTimeout_def emit_def annotate_def Let_def

lemma sendQueued_loop_eq:
  "sendQueued_loop len index s =
     s\<lparr>timers := timers s @ flush_timers s len index, nextTimer := nextTimer s + index\<rparr>"
proof (induction index arbitrary: s)
  case 0
  then show ?case by (simp add: flush_timers_def)
next
  case (Suc index)
  show ?case
    by (simp add: Suc.IH priv_delayQueueSend_def setTimeout_def flush_timers_def
        map_upt_Suc del: upt_Suc)
qed

lemma priv_sendQueued_eq:
  "priv_sendQueued s =
     s\<lparr>timers := timers s @ flush_timers s (length (queue s)) (length (queue s)),
       nextTimer := nextTimer s + length (queue s)\<rparr>"
  by (simp add: priv_sendQueued_def sendQueued_loop_eq)

lemma flush_timers_act: "t \<in> set (flush_timers s len index) \<Longrightarrow> \<exists>i. act t = QueueSend i"
  by (auto simp: flush_timers_def)

lemma clearTimeout_eq: "clearTimeout (connectTimer s) s = s\<lparr>timers := cleared s\<rparr>"
  by (cases "connectTimer s") (auto simp: clearTimeout_def cleared_def)

lemma priv_onclose_eq:
  "priv_onclose e s =
     s\<lparr>ws := None,
       hasOpened := hasOpened s \<and> \<not> reconnects s,
       isRetrying := isRetrying s \<and> \<not> reconnects s,
       isRefreshing := isRefreshing s \<and> \<not> reconnects s,
       attempts := (if reconnects s then attempts s + 1 else attempts s),
       readyState := (if wasForced s then Some WS_CLOSED else readyState s),
       timers := cleared s @
         (if reconnects s then [\<lparr>tid = nextTimer s, due = now s + interval s, act = Connect\<rparr>] else []),
       nextTimer := (if reconnects s then Suc (nextTimer s) else nextTimer s),
       outputs := outputs s @ (if reports s then triggered OnClose (annotate s) s else [])\<rparr>"
  by (simp add: priv_onclose_def clearTimeout_eq priv_stateChanged_def priv_trigger_def
      priv_reconnect_def setTimeout_def annotate_def triggered_def interval_def Let_def
      reconnects_def reports_def)

lemma priv_onopen_eq:
  "priv_onopen e s =
     (if wasForced s
      then s\<lparr>timers := cleared s,
             outputs := outputs s @ (case ws s of Some w \<Rightarrow> [WsCloseCall w] | None \<Rightarrow> [])\<rparr>
      else s\<lparr>hasOpened := True, attempts := 1, readyState := Some WS_OPEN,
             timers := cleared s @
               map (\<lambda>j. \<lparr>tid = nextTimer s + j, due = now s + delay s * Suc j,
                         act = QueueSend (length (queue s) - Suc j)\<rparr>) [0..<length (queue s)],
             nextTimer := nextTimer s + length (queue s),
             outputs := outputs s @ triggered OnOpen e s\<rparr>)"
  by (simp add: priv_onopen_def clearTimeout_eq priv_stateChanged_def priv_trigger_def
      close_def priv_close_def emit_def triggered_def Let_def priv_sendQueued_eq flush_timers_def
      split: option.splits)

lemma priv_connect_eq:
  "priv_connect s =
     s\<lparr>ws := Some (length (sockets s)),
       sockets := sockets s @ [TConnecting],
       connectTimer := Some (nextTimer s),
       readyState := Some WS_CONNECTING,
       timers := timers s @ [\<lparr>tid = nextTimer s, due = now s + timeout s, act = ConnectTimeout\<rparr>],
       nextTimer := Suc (nextTimer s),
       outputs := outputs s @ [WsNew (length (sockets s)) (now s)] @ triggered OnConnecting NoEvt s\<rparr>"
  by (simp add: priv_connect_def priv_stateChanged_def priv_trigger_def emit_def setTimeout_def
      triggered_def Let_def)

lemma WS_distinct [simp]:
  "WS_CONNECTING \<noteq> WS_OPEN" "WS_OPEN \<noteq> WS_CONNECTING"
  "WS_CONNECTING \<noteq> WS_CLOSED" "WS_CLOSED \<noteq> WS_CONNECTING"
  "WS_OPEN \<noteq> WS_CLOSED" "WS_CLOSED \<noteq> WS_OPEN"
  by (simp_all add: WS_CONNECTING_def WS_OPEN_def WS_CLOSED_def)

lemma view_sockets [simp]:
  "interval (s\<lparr>sockets := x\<rparr>) = interval s"
  "reconnects (s\<lparr>sockets := x\<rparr>) = reconnects s"
  "reports (s\<lparr>sockets := x\<rparr>) = reports s"
  "cleared (s\<lparr>sockets := x\<rparr>) = cleared s"
  "annotate (s\<lparr>sockets := x\<rparr>) = annotate s"
  "triggered n e (s\<lparr>sockets := x\<rparr>) = triggered n e s"
  by (simp_all add: interval_def reconnects_def reports_def cleared_def annotate_def triggered_def)

lemma view_timers [simp]:
  "interval (s\<lparr>timers := y\<rparr>) = interval s"
  "reconnects (s\<lparr>timers := y\<rparr>) = reconnects s"
  "reports (s\<lparr>timers := y\<rparr>) = reports s"
  "annotate (s\<lparr>timers := y\<rparr>) = annotate s"
  "triggered n e (s\<lparr>timers := y\<rparr>) = triggered n e s"
  "status (s\<lparr>timers := y\<rparr>) w = status s w"
  by (simp_all add: interval_def reconnects_def reports_def annotate_def triggered_def status_def)

section \<open>The invariants hold in every reachable state\<close>

lemma callback_attempts: "attempts (callback a s) = attempts s"
  by (cases a) (simp_all add: ops split: option.splits)

lemma fire_attempts: "attempts (fire i s) = attempts s"
  by (simp add: fire_def callback_attempts split: option.splits)

lemma inv_attempts_step: "inv_attempts s \<Longrightarrow> inv_attempts (step e s)"
  by (cases e) (simp_all add: inv_attempts_def ops priv_sendQueued_eq fire_attempts split: option.splits)

lemma inv_attempts_run: "inv_attempts s \<Longrightarrow> inv_attempts (run es s)"
  by (induction es arbitrary: s) (simp_all add: inv_attempts_step)

lemma inv_attempts_init: "inv_attempts (RcSocket u p)"
  by (simp add: inv_attempts_def RcSocket_def setTimeout_def)

lemma callback_ready: "inv_ready s \<Longrightarrow> inv_ready (callback a s)"
  by (cases a) (simp_all add: inv_ready_def ops split: option.splits)

lemma fire_ready: "inv_ready s \<Longrightarrow> inv_ready (fire i s)"
proof -
  assume a: "inv_ready s"
  have "\<And>ts. inv_ready (s\<lparr>timers := ts\<rparr>)" using a by (simp add: inv_ready_def)
  then show ?thesis using a by (simp add: fire_def callback_ready split: option.splits)
qed

lemma inv_ready_step: "inv_ready s \<Longrightarrow> inv_ready (step e s)"
  by (cases e) (simp_all add: inv_ready_def[symmetric] fire_ready, simp_all add: inv_ready_def ops priv_sendQueued_eq split: option.splits)

lemma inv_ready_run: "inv_ready s \<Longrightarrow> inv_ready (run es s)"
  by (induction es arbitrary: s) (simp_all add: inv_ready_step)

lemma inv_ready_init: "inv_ready (RcSocket u p)"
  by (simp add: inv_ready_def RcSocket_def setTimeout_def)

lemma inv_conn_init: "inv_conn (RcSocket u p)"
  by (simp add: inv_conn_def RcSocket_def setTimeout_def status_def)

lemma inv_conn_frame:
  assumes "inv_conn s"
    and "sockets s' = sockets s" "ws s' = ws s" "set (timers s') \<subseteq> set (timers s)"
    and "connectTimer s' = connectTimer s" "hasOpened s' = hasOpened s"
    and "readyState s' = readyState s" "wasForced s \<longrightarrow> wasForced s'"
  shows "inv_conn s'"
proof -
  have st: "status s' = status s" using assms(2) by (simp add: status_def fun_eq_iff)
  show ?thesis
    using assms unfolding inv_conn_def st
    by (auto simp: subset_iff)
qed

lemma inv_conn_send: "inv_conn s \<Longrightarrow> inv_conn (send d s)"
  by (erule inv_conn_frame) (simp_all add: ops split: option.splits)

lemma inv_conn_priv_close: "inv_conn s \<Longrightarrow> inv_conn (priv_close s)"
  by (erule inv_conn_frame) (simp_all add: ops split: option.splits)

lemma inv_conn_close: "inv_conn s \<Longrightarrow> inv_conn (close s)"
  by (erule inv_conn_frame) (simp_all add: ops split: option.splits)

lemma inv_conn_retry: "inv_conn s \<Longrightarrow> inv_conn (retry s)"
  by (erule inv_conn_frame) (simp_all add: ops split: option.splits)

lemma inv_conn_refresh: "inv_conn s \<Longrightarrow> inv_conn (refresh s)"
  by (erule inv_conn_frame) (simp_all add: ops split: option.splits)

lemma inv_conn_trigger: "inv_conn s \<Longrightarrow> inv_conn (priv_trigger n e s)"
  by (erule inv_conn_frame) (simp_all add: ops)

lemma cleared_subset: "set (cleared s) \<subseteq> set (timers s)"
  by (auto simp: cleared_def)

lemma cleared_no_timeout:
  "\<forall>t \<in> set (timers s). act t = ConnectTimeout \<longrightarrow> connectTimer s = Some (tid t) \<Longrightarrow>
   t \<in> set (cleared s) \<Longrightarrow> act t \<noteq> ConnectTimeout"
  by (auto simp: cleared_def)

lemma inv_conn_current:
  assumes "inv_conn s" "status s w \<noteq> TClosed"
  shows "ws s = Some w"
    and "\<And>t. t \<in> set (timers s) \<Longrightarrow> act t \<noteq> Connect"
    and "\<And>w'. w' \<noteq> w \<Longrightarrow> status s w' = TClosed"
    and "\<And>t. t \<in> set (cleared s) \<Longrightarrow> act t \<noteq> ConnectTimeout"
    and "readyState s \<noteq> Some WS_CLOSED"
proof -
  show w: "ws s = Some w" using assms unfolding inv_conn_def by blast
  show "\<And>t. t \<in> set (timers s) \<Longrightarrow> act t \<noteq> Connect"
    using assms(1) w unfolding inv_conn_def by fastforce
  show "\<And>w'. w' \<noteq> w \<Longrightarrow> status s w' = TClosed"
    using assms(1) w unfolding inv_conn_def by (metis option.inject)
  show "\<And>t. t \<in> set (cleared s) \<Longrightarrow> act t \<noteq> ConnectTimeout"
    using assms(1) cleared_no_timeout unfolding inv_conn_def by blast
  show "readyState s \<noteq> Some WS_CLOSED"
    using assms(1) w unfolding inv_conn_def by fastforce
qed

lemma status_update:
  "status (s\<lparr>sockets := (sockets s)[w := v]\<rparr>) w' =
     (if w' = w \<and> w < length (sockets s) then v else status s w')"
  by (simp add: status_def nth_list_update)

lemma status_in_range: "status s w \<noteq> TClosed \<Longrightarrow> w < length (sockets s)"
  by (simp add: status_def split: if_splits)

lemma inv_conn_onclose:
  assumes inv: "inv_conn s" and lv: "status s w \<noteq> TClosed"
  shows "inv_conn (priv_onclose e (s\<lparr>sockets := (sockets s)[w := TClosed]\<rparr>))"
proof -
  note cur = inv_conn_current[OF inv lv]
  let ?s0 = "s\<lparr>sockets := (sockets s)[w := TClosed]\<rparr>"
  let ?s' = "priv_onclose e ?s0"
  have st: "\<And>w'. status ?s' w' = TClosed"
  proof -
    fix w'
    have "status ?s' w' = status ?s0 w'" by (simp add: priv_onclose_eq status_def)
    also have "\<dots> = TClosed"
      using cur(3)[of w'] status_in_range[OF lv] by (simp add: status_update)
    finally show "status ?s' w' = TClosed" .
  qed
  have ws': "ws ?s' = None" by (simp add: priv_onclose_eq)
  have cl: "cleared ?s0 = cleared s" by (simp add: cleared_def)
  have tm: "\<And>t. t \<in> set (timers ?s') \<Longrightarrow>
      (t \<in> set (cleared s) \<and> act t \<noteq> Connect \<and> act t \<noteq> ConnectTimeout) \<or>
      (reconnects s \<and> act t = Connect \<and> tid t = nextTimer s)"
    using cur(2) cur(4) cleared_subset[of s]
    by (auto simp: priv_onclose_eq cl reconnects_def split: if_splits)
  have wf: "wasForced ?s' = wasForced s" by (simp add: priv_onclose_eq)
  have a: "\<forall>w. status ?s' w \<noteq> TClosed \<longleftrightarrow> ws ?s' = Some w"
    by (simp add: st ws')
  have b: "\<forall>t \<in> set (timers ?s'). act t = Connect \<longrightarrow>
        ws ?s' = None \<and> (\<forall>t' \<in> set (timers ?s'). act t' = Connect \<longrightarrow> tid t' = tid t)"
  proof (intro ballI impI conjI)
    fix t t' assume "t \<in> set (timers ?s')" "act t = Connect" "t' \<in> set (timers ?s')" "act t' = Connect"
    then have "tid t = nextTimer s" "tid t' = nextTimer s" using tm by blast+
    then show "tid t' = tid t" by simp
  qed (rule ws')
  have c: "\<forall>t \<in> set (timers ?s'). act t = ConnectTimeout \<longrightarrow>
        connectTimer ?s' = Some (tid t) \<and> (\<exists>w. ws ?s' = Some w \<and> status ?s' w = TConnecting)"
  proof (intro ballI impI)
    fix t assume "t \<in> set (timers ?s')" "act t = ConnectTimeout"
    then have False using tm[of t] by auto
    then show "connectTimer ?s' = Some (tid t) \<and> (\<exists>w. ws ?s' = Some w \<and> status ?s' w = TConnecting)" ..
  qed
  have nc: "\<not> reconnects s \<Longrightarrow> \<forall>t \<in> set (timers ?s'). act t \<noteq> Connect"
    using tm by blast
  have d: "hasOpened ?s' \<longrightarrow> (\<forall>t \<in> set (timers ?s'). act t \<noteq> Connect) \<and> (\<forall>w. status ?s' w \<noteq> TConnecting)"
  proof
    assume "hasOpened ?s'"
    then have "\<not> reconnects s" by (simp add: priv_onclose_eq reconnects_def)
    then show "(\<forall>t \<in> set (timers ?s'). act t \<noteq> Connect) \<and> (\<forall>w. status ?s' w \<noteq> TConnecting)"
      using nc by (simp add: st)
  qed
  have e: "readyState ?s' = Some WS_CLOSED \<longrightarrow>
        wasForced ?s' \<and> ws ?s' = None \<and> (\<forall>t \<in> set (timers ?s'). act t \<noteq> Connect)"
  proof
    assume "readyState ?s' = Some WS_CLOSED"
    then have f: "wasForced s" using cur(5) by (simp add: priv_onclose_eq split: if_splits)
    then have "\<not> reconnects s" by (simp add: reconnects_def)
    then show "wasForced ?s' \<and> ws ?s' = None \<and> (\<forall>t \<in> set (timers ?s'). act t \<noteq> Connect)"
      using nc ws' f wf by simp
  qed
  show ?thesis unfolding inv_conn_def using a b c d e by blast
qed

lemma inv_conn_live: "inv_conn s \<Longrightarrow> (status s w \<noteq> TClosed) = (ws s = Some w)"
  unfolding inv_conn_def by blast

lemma inv_conn_Connect:
  "inv_conn s \<Longrightarrow> t \<in> set (timers s) \<Longrightarrow> act t = Connect \<Longrightarrow>
   ws s = None \<and> (\<forall>t' \<in> set (timers s). act t' = Connect \<longrightarrow> tid t' = tid t)"
  unfolding inv_conn_def by blast

lemma inv_conn_ConnectTimeout:
  "inv_conn s \<Longrightarrow> t \<in> set (timers s) \<Longrightarrow> act t = ConnectTimeout \<Longrightarrow>
   connectTimer s = Some (tid t) \<and> (\<exists>w. ws s = Some w \<and> status s w = TConnecting)"
  unfolding inv_conn_def by (elim conjE) (drule (1) bspec, simp)

lemma inv_conn_hasOpened:
  "inv_conn s \<Longrightarrow> hasOpened s \<Longrightarrow>
   (\<forall>t \<in> set (timers s). act t \<noteq> Connect) \<and> (\<forall>w. status s w \<noteq> TConnecting)"
  unfolding inv_conn_def by (elim conjE) simp

lemma inv_conn_CLOSED:
  "inv_conn s \<Longrightarrow> readyState s = Some WS_CLOSED \<Longrightarrow>
   wasForced s \<and> ws s = None \<and> (\<forall>t \<in> set (timers s). act t \<noteq> Connect)"
  unfolding inv_conn_def by (elim conjE) simp

lemma inv_connI:
  assumes "\<And>w. (status s w \<noteq> TClosed) = (ws s = Some w)"
    and "\<And>t. t \<in> set (timers s) \<Longrightarrow> act t = Connect \<Longrightarrow>
           ws s = None \<and> (\<forall>t' \<in> set (timers s). act t' = Connect \<longrightarrow> tid t' = tid t)"
    and "\<And>t. t \<in> set (timers s) \<Longrightarrow> act t = ConnectTimeout \<Longrightarrow>
           connectTimer s = Some (tid t) \<and> (\<exists>w. ws s = Some w \<and> status s w = TConnecting)"
    and "hasOpened s \<Longrightarrow>
           (\<forall>t \<in> set (timers s). act t \<noteq> Connect) \<and> (\<forall>w. status s w \<noteq> TConnecting)"
    and "readyState s = Some WS_CLOSED \<Longrightarrow>
           wasForced s \<and> ws s = None \<and> (\<forall>t \<in> set (timers s). act t \<noteq> Connect)"
  shows "inv_conn s"
  unfolding inv_conn_def using assms by blast

lemma inv_conn_connect:
  assumes inv: "inv_conn s" and t: "t \<in> set (timers s)" "act t = Connect"
  shows "inv_conn (priv_connect (s\<lparr>timers := filter (\<lambda>x. tid x \<noteq> tid t) (timers s)\<rparr>))"
proof -
  let ?s0 = "s\<lparr>timers := filter (\<lambda>x. tid x \<noteq> tid t) (timers s)\<rparr>"
  let ?s' = "priv_connect ?s0"
  have nows: "ws s = None" using inv_conn_Connect[OF inv t] by simp
  have dead: "\<And>w. status s w = TClosed" using inv_conn_live[OF inv] nows by simp
  have uniq: "\<And>t'. t' \<in> set (timers s) \<Longrightarrow> act t' = Connect \<Longrightarrow> tid t' = tid t"
    using inv_conn_Connect[OF inv t] by blast
  have noct: "\<And>t'. t' \<in> set (timers s) \<Longrightarrow> act t' \<noteq> ConnectTimeout"
    using inv_conn_ConnectTimeout[OF inv] nows by fastforce
  have notop: "\<not> hasOpened s" using inv_conn_hasOpened[OF inv] t by blast
  have st: "\<And>w. status ?s' w = (if w = length (sockets s) then TConnecting else TClosed)"
  proof -
    fix w
    have "status ?s' w = (if w < length (sockets s) then sockets s ! w
       else if w = length (sockets s) then TConnecting else TClosed)"
      by (simp add: priv_connect_eq status_def nth_append)
    then show "status ?s' w = (if w = length (sockets s) then TConnecting else TClosed)"
      using dead[of w] by (simp add: status_def split: if_splits)
  qed
  have ws': "ws ?s' = Some (length (sockets s))" by (simp add: priv_connect_eq)
  have ct': "connectTimer ?s' = Some (nextTimer s)" by (simp add: priv_connect_eq)
  have tms: "timers ?s' = filter (\<lambda>x. tid x \<noteq> tid t) (timers s) @
      [\<lparr>tid = nextTimer s, due = now s + timeout s, act = ConnectTimeout\<rparr>]"
    by (simp add: priv_connect_eq)
  have tm1: "\<And>x. x \<in> set (timers ?s') \<Longrightarrow> act x \<noteq> Connect"
  proof
    fix x assume x: "x \<in> set (timers ?s')" and c: "act x = Connect"
    from x c have "x \<in> set (timers s)" "tid x \<noteq> tid t" unfolding tms by auto
    then show False using uniq c by blast
  qed
  have tm2: "\<And>x. x \<in> set (timers ?s') \<Longrightarrow> act x = ConnectTimeout \<Longrightarrow> tid x = nextTimer s"
  proof -
    fix x assume x: "x \<in> set (timers ?s')" and c: "act x = ConnectTimeout"
    from x have "x \<in> set (timers s) \<or> x = \<lparr>tid = nextTimer s, due = now s + timeout s, act = ConnectTimeout\<rparr>"
      unfolding tms by auto
    then show "tid x = nextTimer s" using noct c by auto
  qed
  have rs: "readyState ?s' \<noteq> Some WS_CLOSED"
    by (simp add: priv_connect_eq WS_CONNECTING_def WS_CLOSED_def)
  have ho: "\<not> hasOpened ?s'" using notop by (simp add: priv_connect_eq)
  show ?thesis
  proof (rule inv_connI)
    fix w show "(status ?s' w \<noteq> TClosed) = (ws ?s' = Some w)"
      by (simp add: st ws')
  next
    fix x assume "x \<in> set (timers ?s')" "act x = Connect"
    then have False using tm1 by blast
    then show "ws ?s' = None \<and> (\<forall>t' \<in> set (timers ?s'). act t' = Connect \<longrightarrow> tid t' = tid x)" ..
  next
    fix x assume "x \<in> set (timers ?s')" "act x = ConnectTimeout"
    then have "tid x = nextTimer s" by (rule tm2)
    then show "connectTimer ?s' = Some (tid x) \<and> (\<exists>w. ws ?s' = Some w \<and> status ?s' w = TConnecting)"
      by (simp add: st ws' ct')
  next
    assume "hasOpened ?s'"
    then have False using ho by simp
    then show "(\<forall>t \<in> set (timers ?s'). act t \<noteq> Connect) \<and> (\<forall>w. status ?s' w \<noteq> TConnecting)" ..
  next
    assume "readyState ?s' = Some WS_CLOSED"
    then have False using rs by simp
    then show "wasForced ?s' \<and> ws ?s' = None \<and> (\<forall>t \<in> set (timers ?s'). act t \<noteq> Connect)" ..
  qed
qed

lemma inv_conn_onopen:
  assumes inv: "inv_conn s" and cn: "status s w = TConnecting"
  shows "inv_conn (priv_onopen e (s\<lparr>sockets := (sockets s)[w := TOpen]\<rparr>))"
proof -
  have lv: "status s w \<noteq> TClosed" using cn by simp
  note cur = inv_conn_current[OF inv lv]
  let ?s0 = "s\<lparr>sockets := (sockets s)[w := TOpen]\<rparr>"
  let ?s' = "priv_onopen e ?s0"
  have st: "\<And>w'. status ?s' w' = (if w' = w then TOpen else TClosed)"
  proof -
    fix w'
    have "status ?s' w' = status ?s0 w'" by (simp add: priv_onopen_eq status_def)
    also have "\<dots> = (if w' = w then TOpen else TClosed)"
      using cur(3)[of w'] status_in_range[OF lv] by (simp add: status_update)
    finally show "status ?s' w' = (if w' = w then TOpen else TClosed)" .
  qed
  have ws': "ws ?s' = Some w" using cur(1) by (simp add: priv_onopen_eq)
  have cl: "cleared ?s0 = cleared s" by (simp add: cleared_def)
  have tm: "\<And>t. t \<in> set (timers ?s') \<Longrightarrow> act t \<noteq> Connect \<and> act t \<noteq> ConnectTimeout"
    using cur(2) cur(4) cleared_subset[of s]
    by (auto simp: priv_onopen_eq cl split: if_splits)
  have rs: "readyState ?s' \<noteq> Some WS_CLOSED"
    using cur(5) by (simp add: priv_onopen_eq WS_OPEN_def WS_CLOSED_def)
  show ?thesis
    unfolding inv_conn_def using tm rs by (simp add: st ws')
qed

lemma inv_conn_timers:
  "inv_conn s \<Longrightarrow> set ts \<subseteq> set (timers s) \<Longrightarrow> inv_conn (s\<lparr>timers := ts\<rparr>)"
  by (erule inv_conn_frame) simp_all

lemma inv_conn_fire: "inv_conn s \<Longrightarrow> inv_conn (fire i s)"
proof (cases "find (\<lambda>t. tid t = i) (timers s)")
  case None
  assume "inv_conn s"
  then show ?thesis using None by (simp add: fire_def)
next
  case (Some t)
  assume inv: "inv_conn s"
  from Some have t: "t \<in> set (timers s)" "tid t = i"
    by (auto simp: find_Some_iff)
  let ?s0 = "s\<lparr>timers := filter (\<lambda>x. tid x \<noteq> i) (timers s)\<rparr>"
  have inv0: "inv_conn ?s0" using inv by (rule inv_conn_timers) auto
  have "inv_conn (callback (act t) ?s0)"
  proof (cases "act t")
    case Connect
    then show ?thesis using inv_conn_connect[OF inv t(1)] t(2) by simp
  next
    case ConnectTimeout
    then show ?thesis using inv0 by (simp add: inv_conn_retry inv_conn_trigger)
  next
    case (QueueSend index)
    have "inv_conn (send (js_nth (queue ?s0) index) ?s0)" using inv0 by (rule inv_conn_send)
    then have "inv_conn ((send (js_nth (queue ?s0) index) ?s0)\<lparr>queue := butlast (queue (send (js_nth (queue ?s0) index) ?s0))\<rparr>)"
      by (rule inv_conn_frame) simp_all
    then show ?thesis using QueueSend by (simp add: Let_def)
  qed
  then show ?thesis using inv Some by (simp add: fire_def)
qed

lemma inv_conn_step: "inv_conn s \<Longrightarrow> inv_conn (step e s)"
proof (cases e)
  case (WsOpen w)
  assume "inv_conn s" then show ?thesis using WsOpen by (simp add: inv_conn_onopen)
next
  case (WsClose w)
  assume "inv_conn s" then show ?thesis using WsClose by (simp add: inv_conn_onclose)
next
  case (Fire i)
  assume "inv_conn s" then show ?thesis using Fire by (simp add: inv_conn_fire)
next
  case (Send d)
  assume "inv_conn s" then show ?thesis using Send by (simp add: inv_conn_send)
next
  case Close
  assume "inv_conn s" then show ?thesis using Close by (simp add: inv_conn_close)
next
  case Retry
  assume "inv_conn s" then show ?thesis using Retry by (simp add: inv_conn_retry)
next
  case Refresh
  assume "inv_conn s" then show ?thesis using Refresh by (simp add: inv_conn_refresh)
next
  case (WsMessage w)
  assume "inv_conn s" then show ?thesis using WsMessage by (simp add: priv_onmessage_def inv_conn_trigger)
next
  case (WsError w)
  assume "inv_conn s" then show ?thesis using WsError by (simp add: priv_onerror_def inv_conn_trigger)
qed (erule inv_conn_frame; simp)+

lemma inv_conn_run: "inv_conn s \<Longrightarrow> inv_conn (run es s)"
  by (induction es arbitrary: s) (simp_all add: inv_conn_step)

lemma inv_timers_init: "inv_timers (RcSocket u p)"
  by (simp add: inv_timers_def RcSocket_def setTimeout_def)

lemma inv_timers_frame:
  "inv_timers s \<Longrightarrow> set (timers s') \<subseteq> set (timers s) \<Longrightarrow> nextTimer s' = nextTimer s \<Longrightarrow>
   inv_timers s'"
  unfolding inv_timers_def by auto

lemma inv_timers_callback: "inv_timers s \<Longrightarrow> inv_timers (callback a s)"
  unfolding inv_timers_def
  by (cases a) (auto simp: priv_connect_eq retry_def priv_close_def emit_def priv_trigger_def
      send_def Let_def split: option.splits)

lemma inv_timers_fire: "inv_timers s \<Longrightarrow> inv_timers (fire i s)"
proof -
  assume a: "inv_timers s"
  have "\<And>P. inv_timers (s\<lparr>timers := filter P (timers s)\<rparr>)"
    using a by (rule inv_timers_frame) auto
  then show ?thesis using a by (simp add: fire_def inv_timers_callback split: option.splits)
qed

lemma inv_timers_onopen: "inv_timers s \<Longrightarrow> inv_timers (priv_onopen e s)"
  unfolding inv_timers_def
  by (auto simp: priv_onopen_eq cleared_def less_SucI)

lemma inv_timers_onclose: "inv_timers s \<Longrightarrow> inv_timers (priv_onclose e s)"
  unfolding inv_timers_def
  by (auto simp: priv_onclose_eq cleared_def less_SucI)

lemma inv_timers_sockets: "inv_timers (s\<lparr>sockets := x\<rparr>) = inv_timers s"
  by (simp add: inv_timers_def)

lemma inv_timers_step: "inv_timers s \<Longrightarrow> inv_timers (step e s)"
proof (cases e)
  case (WsOpen w)
  assume "inv_timers s" then show ?thesis using WsOpen
    by (simp add: inv_timers_onopen inv_timers_sockets)
next
  case (WsClose w)
  assume "inv_timers s" then show ?thesis using WsClose
    by (simp add: inv_timers_onclose inv_timers_sockets)
next
  case (Fire i)
  assume "inv_timers s" then show ?thesis using Fire by (simp add: inv_timers_fire)
qed (erule inv_timers_frame;
     simp add: send_def close_def retry_def refresh_def priv_close_def emit_def
       priv_onmessage_def priv_onerror_def priv_trigger_def split: option.splits)+

lemma inv_timers_run: "inv_timers s \<Longrightarrow> inv_timers (run es s)"
  by (induction es arbitrary: s) (simp_all add: inv_timers_step)

lemma inv_distinct_init: "inv_distinct (RcSocket u p)"
  by (simp add: inv_distinct_def RcSocket_def setTimeout_def)

lemma distinct_filter_tid: "distinct (map tid ts) \<Longrightarrow> distinct (map tid (filter P ts))"
  by (rule distinct_map_filter)

lemma distinct_snoc_tid:
  "distinct (map tid ts) \<Longrightarrow> \<forall>t \<in> set ts. tid t < n \<Longrightarrow>
   distinct (map tid (ts @ [\<lparr>tid = n, due = d, act = a\<rparr>]))"
  by auto

lemma distinct_flush_tid:
  assumes "distinct (map tid ts)" and "\<forall>t \<in> set ts. tid t < n"
  shows "distinct (map tid (ts @ map (\<lambda>j. \<lparr>tid = n + j, due = f j, act = g j\<rparr>) [0..<m]))"
proof -
  have m: "map tid (map (\<lambda>j. \<lparr>tid = n + j, due = f j, act = g j\<rparr>) [0..<m]) = map (\<lambda>j. n + j) [0..<m]"
    by simp
  have d: "distinct (map (\<lambda>j. n + j) [0..<m])"
    by (simp add: distinct_map inj_on_def)
  have dj: "set (map tid ts) \<inter> set (map (\<lambda>j. n + j) [0..<m]) = {}"
    using assms(2) by fastforce
  show ?thesis using assms(1) d dj unfolding map_append m by simp
qed

lemma inv_distinct_callback:
  "inv_timers s \<Longrightarrow> inv_distinct s \<Longrightarrow> inv_distinct (callback a s)"
  unfolding inv_timers_def inv_distinct_def
  by (cases a) (simp_all add: priv_connect_eq retry_def priv_close_def emit_def priv_trigger_def
      send_def Let_def split: option.splits, fastforce)

lemma inv_distinct_step:
  assumes it: "inv_timers s" and d: "inv_distinct s"
  shows "inv_distinct (step e s)"
proof (cases e)
  case (Fire i)
  let ?s0 = "s\<lparr>timers := filter (\<lambda>t. tid t \<noteq> i) (timers s)\<rparr>"
  have "inv_timers ?s0" using it by (rule inv_timers_frame) auto
  moreover have "inv_distinct ?s0"
    using d unfolding inv_distinct_def by (simp add: distinct_filter_tid)
  ultimately have "\<And>a. inv_distinct (callback a ?s0)" by (rule inv_distinct_callback)
  then show ?thesis using Fire d by (simp add: fire_def split: option.splits)
next
  case (WsOpen w)
  have c: "distinct (map tid (cleared s))" "\<forall>t \<in> set (cleared s). tid t < nextTimer s"
    using d it cleared_subset[of s] unfolding inv_distinct_def inv_timers_def cleared_def
    by (auto simp: distinct_filter_tid)
  show ?thesis using WsOpen d c distinct_flush_tid[OF c]
    unfolding inv_distinct_def by (simp add: priv_onopen_eq)
next
  case (WsClose w)
  have c: "distinct (map tid (cleared s))" "\<forall>t \<in> set (cleared s). tid t < nextTimer s"
    using d it cleared_subset[of s] unfolding inv_distinct_def inv_timers_def cleared_def
    by (auto simp: distinct_filter_tid)
  show ?thesis using WsClose d c distinct_snoc_tid[OF c]
    unfolding inv_distinct_def by (simp add: priv_onclose_eq)
qed (use d in \<open>simp_all add: inv_distinct_def send_def close_def retry_def refresh_def
      priv_close_def emit_def priv_onmessage_def priv_onerror_def priv_trigger_def
      split: option.splits\<close>)

lemma inv_handles_run:
  "inv_timers s \<Longrightarrow> inv_distinct s \<Longrightarrow> inv_distinct (run es s)"
  by (induction es arbitrary: s) (simp_all add: inv_distinct_step inv_timers_step)

lemma same_handle:
  "inv_distinct s \<Longrightarrow> t \<in> set (timers s) \<Longrightarrow> t' \<in> set (timers s) \<Longrightarrow> tid t = tid t' \<Longrightarrow>
   t = t'"
  unfolding inv_distinct_def by (auto simp: distinct_map inj_on_def)

section \<open>The claims\<close>

lemmas evals = interval_def RcSocket_def fire_def status_def js_nth_def priv_sendQueued_def ops
  WS_CONNECTING_def WS_OPEN_def WS_CLOSED_def triggered_def

subsection \<open>The reconnect delay\<close>

text \<open>
  C4. For every value of \<^verbatim>\<open>attempts\<close>, the delay \<^verbatim>\<open>_reconnect\<close> computes is
  \<open>min maxRetry ((2 ^ attempts - 1) * 1000)\<close> milliseconds, it never exceeds
  \<^verbatim>\<open>maxRetry\<close>, and the connect it schedules is due that long from now. Numbers are
  natural numbers here: the source computes in doubles, which agree as long as
  \<open>2 ^ attempts * 1000\<close> is below \<open>2 ^ 53\<close>.
\<close>

theorem reconnect_delay:
  "interval s = min (maxRetry s) ((2 ^ attempts s - 1) * 1000) \<and>
   interval s \<le> maxRetry s \<and>
   timers (priv_reconnect s) =
     timers s @ [\<lparr>tid = nextTimer s,
                  due = now s + min (maxRetry s) ((2 ^ attempts s - 1) * 1000),
                  act = Connect\<rparr>]"
  by (simp add: interval_def priv_reconnect_def setTimeout_def Let_def min_def)

subsection \<open>The attempt counter\<close>

lemma step_attempts:
  "attempts (step e s) =
     (if enters_wait e s then attempts s + 1 else if reaches_open e s then 1 else attempts s)"
  by (cases e)
    (simp_all add: enters_wait_def reaches_open_def fire_attempts priv_onopen_eq priv_onclose_eq
      send_def close_def retry_def refresh_def priv_close_def emit_def priv_onmessage_def
      priv_onerror_def priv_trigger_def reconnects_def status_def split: option.splits)

lemma enters_wait_timer:
  "enters_wait e s \<Longrightarrow>
   timers (step e s) = cleared s @ [\<lparr>tid = nextTimer s, due = now s + interval s, act = Connect\<rparr>]"
  by (cases e) (simp_all add: enters_wait_def priv_onclose_eq)

lemma reaches_open_state: "reaches_open e s \<Longrightarrow> readyState (step e s) = Some WS_OPEN"
  by (cases e) (simp_all add: reaches_open_def priv_onopen_eq)

lemma callback_readyState:
  "readyState (callback a s) = Some WS_OPEN \<Longrightarrow> readyState s = Some WS_OPEN"
  by (cases a) (simp_all add: priv_connect_eq retry_def priv_close_def emit_def priv_trigger_def
      send_def Let_def split: option.splits if_splits)

lemma open_only_by_open:
  "readyState (step e s) = Some WS_OPEN \<Longrightarrow> readyState s = Some WS_OPEN \<or> reaches_open e s"
  by (cases e)
    (auto simp: reaches_open_def priv_onopen_eq priv_onclose_eq fire_def
      send_def close_def retry_def refresh_def priv_close_def emit_def priv_onmessage_def
      priv_onerror_def priv_trigger_def
      dest: callback_readyState split: option.splits if_splits)

text \<open>
  C5. \<^verbatim>\<open>attempts\<close> is at least 1 in every reachable state; a step that enters the
  reconnect wait (it calls \<^verbatim>\<open>_reconnect\<close>, which arms the connect timer) adds exactly
  1, a step that reaches \<^verbatim>\<open>OPEN\<close> sets it to 1, and every other step leaves it as it
  is. The state becomes \<^verbatim>\<open>OPEN\<close> by such a step only.
\<close>

theorem attempts_counter:
  "1 \<le> attempts (run es (RcSocket u p)) \<and>
   attempts (step e s) =
     (if enters_wait e s then attempts s + 1 else if reaches_open e s then 1 else attempts s) \<and>
   (enters_wait e s \<longrightarrow>
      timers (step e s) =
        cleared s @ [\<lparr>tid = nextTimer s, due = now s + interval s, act = Connect\<rparr>]) \<and>
   (reaches_open e s \<longrightarrow> readyState (step e s) = Some WS_OPEN) \<and>
   (readyState (step e s) = Some WS_OPEN \<longrightarrow> readyState s = Some WS_OPEN \<or> reaches_open e s)"
  using inv_attempts_run[OF inv_attempts_init, of es u p] step_attempts[of e s]
    enters_wait_timer[of e s] reaches_open_state[of e s] open_only_by_open[of e s]
  unfolding inv_attempts_def by blast

theorem attempts_counter_witness:
  "attempts (run [Fire 0] (RcSocket ''ws://host'' [])) = 1 \<and>
   enters_wait (WsClose 0) (run [Fire 0] (RcSocket ''ws://host'' [])) \<and>
   attempts (step (WsClose 0) (run [Fire 0] (RcSocket ''ws://host'' []))) = 2 \<and>
   timers (step (WsClose 0) (run [Fire 0] (RcSocket ''ws://host'' []))) =
     [\<lparr>tid = 2, due = 1000, act = Connect\<rparr>] \<and>
   reaches_open (WsOpen 1)
     (run [Fire 0, WsClose 0, Elapse 1000, Fire 2] (RcSocket ''ws://host'' [])) \<and>
   attempts (run [Fire 0, WsClose 0, Elapse 1000, Fire 2] (RcSocket ''ws://host'' [])) = 2 \<and>
   attempts (step (WsOpen 1)
     (run [Fire 0, WsClose 0, Elapse 1000, Fire 2] (RcSocket ''ws://host'' []))) = 1 \<and>
   readyState (step (WsOpen 1)
     (run [Fire 0, WsClose 0, Elapse 1000, Fire 2] (RcSocket ''ws://host'' []))) = Some WS_OPEN"
  using attempts_counter[of "[Fire 0]" "''ws://host''" "[]" "WsClose 0"
      "run [Fire 0] (RcSocket ''ws://host'' [])"]
    attempts_counter[of "[Fire 0]" "''ws://host''" "[]" "WsOpen 1"
      "run [Fire 0, WsClose 0, Elapse 1000, Fire 2] (RcSocket ''ws://host'' [])"]
  by (simp add: evals enters_wait_def reaches_open_def reconnects_def cleared_def)

subsection \<open>Sending\<close>

text \<open>
  C6. In every reachable state \<^verbatim>\<open>send\<close> calls \<^verbatim>\<open>ws.send\<close> with the payload at once, and
  does nothing else, when a socket exists and \<^verbatim>\<open>readyState\<close> is not \<^verbatim>\<open>CONNECTING\<close>;
  otherwise it calls nothing and puts the payload in the queue, where it is the last in
  sending order. In any state whose \<^verbatim>\<open>readyState\<close> is one of the four codes the test is
  the same, so that \<^verbatim>\<open>OPEN\<close>, \<^verbatim>\<open>CLOSING\<close> and \<^verbatim>\<open>CLOSED\<close> all send.
\<close>

theorem send_forwards_or_queues:
  "send d (run es (RcSocket u p)) =
     (case ws (run es (RcSocket u p)) of
        Some w \<Rightarrow>
          if readyState (run es (RcSocket u p)) \<noteq> Some WS_CONNECTING
          then (run es (RcSocket u p))
                 \<lparr>outputs := outputs (run es (RcSocket u p)) @ [WsSend w d]\<rparr>
          else (run es (RcSocket u p))\<lparr>queue := d # queue (run es (RcSocket u p))\<rparr>
      | None \<Rightarrow> (run es (RcSocket u p))\<lparr>queue := d # queue (run es (RcSocket u p))\<rparr>) \<and>
   (readyState s = Some r \<longrightarrow>
      send d s =
        (case ws s of
           Some w \<Rightarrow>
             if r \<noteq> WS_CONNECTING then s\<lparr>outputs := outputs s @ [WsSend w d]\<rparr>
             else s\<lparr>queue := d # queue s\<rparr>
         | None \<Rightarrow> s\<lparr>queue := d # queue s\<rparr>)) \<and>
   (ws s = Some w \<and> readyState s = Some r \<and> r \<noteq> WS_CONNECTING \<longrightarrow>
      outputs (send d s) = outputs s @ [WsSend w d] \<and> queue (send d s) = queue s) \<and>
   (ws s = None \<or> readyState s = Some WS_CONNECTING \<longrightarrow>
      outputs (send d s) = outputs s \<and> queue (send d s) = d # queue s \<and>
      pendingQueue (send d s) = pendingQueue s @ [d])"
proof -
  let ?s = "run es (RcSocket u p)"
  have "inv_ready ?s" by (rule inv_ready_run[OF inv_ready_init])
  then have rs: "ws ?s = None \<or> readyState ?s \<noteq> None"
    unfolding inv_ready_def by auto
  have gen: "\<And>s. ws s = None \<or> readyState s \<noteq> None \<Longrightarrow>
      send d s =
        (case ws s of
           Some w \<Rightarrow>
             if readyState s \<noteq> Some WS_CONNECTING then s\<lparr>outputs := outputs s @ [WsSend w d]\<rparr>
             else s\<lparr>queue := d # queue s\<rparr>
         | None \<Rightarrow> s\<lparr>queue := d # queue s\<rparr>)"
  proof -
    fix s :: state
    assume "ws s = None \<or> readyState s \<noteq> None"
    then show "send d s =
        (case ws s of
           Some w \<Rightarrow>
             if readyState s \<noteq> Some WS_CONNECTING then s\<lparr>outputs := outputs s @ [WsSend w d]\<rparr>
             else s\<lparr>queue := d # queue s\<rparr>
         | None \<Rightarrow> s\<lparr>queue := d # queue s\<rparr>)"
      by (cases "readyState s")
        (auto simp: send_def emit_def WS_CONNECTING_def split: option.splits)
  qed
  have one: "send d ?s =
     (case ws ?s of
        Some w \<Rightarrow>
          if readyState ?s \<noteq> Some WS_CONNECTING then ?s\<lparr>outputs := outputs ?s @ [WsSend w d]\<rparr>
          else ?s\<lparr>queue := d # queue ?s\<rparr>
      | None \<Rightarrow> ?s\<lparr>queue := d # queue ?s\<rparr>)"
    using rs by (rule gen)
  have two: "readyState s = Some r \<longrightarrow>
      send d s =
        (case ws s of
           Some w \<Rightarrow>
             if r \<noteq> WS_CONNECTING then s\<lparr>outputs := outputs s @ [WsSend w d]\<rparr>
             else s\<lparr>queue := d # queue s\<rparr>
         | None \<Rightarrow> s\<lparr>queue := d # queue s\<rparr>)"
    using gen[of s] by (auto split: option.splits)
  have three: "ws s = Some w \<and> readyState s = Some r \<and> r \<noteq> WS_CONNECTING \<longrightarrow>
      outputs (send d s) = outputs s @ [WsSend w d] \<and> queue (send d s) = queue s"
    by (auto simp: send_def emit_def WS_CONNECTING_def)
  have four: "ws s = None \<or> readyState s = Some WS_CONNECTING \<longrightarrow>
      outputs (send d s) = outputs s \<and> queue (send d s) = d # queue s \<and>
      pendingQueue (send d s) = pendingQueue s @ [d]"
    by (auto simp: send_def emit_def WS_CONNECTING_def pendingQueue_def split: option.splits)
  show ?thesis using one two three four by blast
qed

theorem send_forwards_or_queues_witness:
  "ws open_example = Some 0 \<and> readyState open_example = Some WS_OPEN \<and>
   outputs open_example = [WsNew 0 0] \<and>
   outputs (send (Data ''a'') open_example) = [WsNew 0 0, WsSend 0 (Data ''a'')] \<and>
   queue (send (Data ''a'') open_example) = [] \<and>
   ws connecting_example = Some 0 \<and> readyState connecting_example = Some WS_CONNECTING \<and>
   outputs (send (Data ''a'') connecting_example) = [WsNew 0 0] \<and>
   queue (send (Data ''a'') connecting_example) = [Data ''a''] \<and>
   pendingQueue (send (Data ''b'') (send (Data ''a'') connecting_example)) =
     [Data ''a'', Data ''b''] \<and>
   ws waiting = None \<and>
   outputs (send (Data ''a'') waiting) = outputs waiting \<and>
   queue (send (Data ''a'') waiting) = [Data ''a'']"
  using send_forwards_or_queues[of "Data ''a''" "[SetHandler OnClose True, Fire 0, WsOpen 0]"
      "''ws://host''" "[]" open_example WS_OPEN 0]
    send_forwards_or_queues[of "Data ''a''" "[SetHandler OnClose True, Fire 0]"
      "''ws://host''" "[]" connecting_example WS_CONNECTING 0]
    send_forwards_or_queues[of "Data ''b''" "[]" "''ws://host''" "[]"
      "send (Data ''a'') connecting_example" WS_CONNECTING 0]
    send_forwards_or_queues[of "Data ''a''" "[]" "''ws://host''" "[]" waiting WS_OPEN 0]
  by (simp add: open_example_def connecting_example_def waiting_def evals cleared_def
      reconnects_def pendingQueue_def)

subsection \<open>Retry and refresh without a socket\<close>

lemma callback_keeps_flags:
  "(isRetrying s \<longrightarrow> isRetrying (callback a s)) \<and> (isRefreshing s \<longrightarrow> isRefreshing (callback a s))"
  by (cases a) (simp_all add: priv_connect_eq retry_def priv_close_def emit_def priv_trigger_def
      send_def Let_def split: option.splits)

lemma step_keeps_flags:
  assumes "\<forall>w. e \<noteq> WsClose w"
  shows "(isRetrying s \<longrightarrow> isRetrying (step e s)) \<and> (isRefreshing s \<longrightarrow> isRefreshing (step e s))"
  using assms callback_keeps_flags
  by (cases e)
    (simp_all add: priv_onopen_eq fire_def send_def close_def retry_def refresh_def priv_close_def
      emit_def priv_onmessage_def priv_onerror_def priv_trigger_def split: option.splits)

lemma run_keeps_flags:
  assumes "\<forall>e \<in> set es. \<forall>w. e \<noteq> WsClose w"
  shows "(isRetrying s \<longrightarrow> isRetrying (run es s)) \<and> (isRefreshing s \<longrightarrow> isRefreshing (run es s))"
  using assms
proof (induction es arbitrary: s)
  case Nil
  then show ?case by simp
next
  case (Cons e es)
  then have e: "\<forall>w. e \<noteq> WsClose w" and es: "\<forall>e \<in> set es. \<forall>w. e \<noteq> WsClose w" by simp_all
  show ?case using step_keeps_flags[OF e, of s] Cons.IH[OF es, of "step e s"] by simp
qed

lemma close_signal_flags:
  "status s w \<noteq> TClosed \<Longrightarrow>
   outputs (step (WsClose w) s) =
     outputs s @
       (if reports s
        then triggered OnClose (CloseEvt (wasForced s) (isRetrying s) (isRefreshing s)) s
        else []) \<and>
   isRetrying (step (WsClose w) s) = (isRetrying s \<and> \<not> reconnects s) \<and>
   isRefreshing (step (WsClose w) s) = (isRefreshing s \<and> \<not> reconnects s)"
  by (simp add: priv_onclose_eq annotate_def)

text \<open>
  C10, as the claim states it, fails in its last part. \<^verbatim>\<open>retry()\<close> is called during the
  reconnect wait, with \<^verbatim>\<open>onclose\<close> assigned; the next socket closes before it opens. That
  close signal calls no handler and clears the flag, and the close event of the cycle after
  it carries \<^verbatim>\<open>isRetrying = false\<close>: the flag is never reported.
\<close>

theorem retry_in_wait_unreported:
  "ws waiting = None \<and>
   OnClose \<in> handlers waiting \<and>
   isRetrying (run [Elapse 1000, Fire 2] (retry waiting)) \<and>
   outputs (run [Elapse 1000, Fire 2] (retry waiting)) = [WsNew 0 0, WsNew 1 1000] \<and>
   outputs (run [Elapse 1000, Fire 2, WsClose 1] (retry waiting)) = [WsNew 0 0, WsNew 1 1000] \<and>
   \<not> isRetrying (run [Elapse 1000, Fire 2, WsClose 1] (retry waiting)) \<and>
   outputs (run [Elapse 1000, Fire 2, WsClose 1, Elapse 1000, Fire 4, WsOpen 2, WsClose 2]
              (retry waiting)) =
     [WsNew 0 0, WsNew 1 1000, WsNew 2 2000, Handler OnClose (CloseEvt False False False)]"
  by (simp add: waiting_def evals cleared_def reconnects_def reports_def)

text \<open>
  C10, amended. While no socket exists, \<^verbatim>\<open>retry\<close> and \<^verbatim>\<open>refresh\<close> set their flag and
  change nothing else: no effect on the outside, no timer, no other field. The flag stays
  set through every event that is not a close signal. The next close signal writes it on
  its event; that event is handed to the logger and the owner's handler only when the close
  is forced, or the connection had opened and the page has not unloaded, and otherwise
  nothing is reported. After that close signal the flag is set only if the close was forced
  or came after unload: a close that reconnects clears it, reported or not.
\<close>

theorem retry_without_transport:
  assumes "ws s = None" and "\<forall>e \<in> set es. \<forall>w. e \<noteq> WsClose w"
  shows "retry s = s\<lparr>isRetrying := True\<rparr> \<and>
         refresh s = s\<lparr>isRefreshing := True\<rparr> \<and>
         isRetrying (run es (retry s)) \<and>
         isRefreshing (run es (refresh s)) \<and>
         (status (run es (retry s)) w \<noteq> TClosed \<longrightarrow>
            outputs (step (WsClose w) (run es (retry s))) =
              outputs (run es (retry s)) @
                (if reports (run es (retry s))
                 then triggered OnClose
                        (CloseEvt (wasForced (run es (retry s))) True
                           (isRefreshing (run es (retry s))))
                        (run es (retry s))
                 else []) \<and>
            isRetrying (step (WsClose w) (run es (retry s))) =
              (\<not> reconnects (run es (retry s)))) \<and>
         (status (run es (refresh s)) w \<noteq> TClosed \<longrightarrow>
            outputs (step (WsClose w) (run es (refresh s))) =
              outputs (run es (refresh s)) @
                (if reports (run es (refresh s))
                 then triggered OnClose
                        (CloseEvt (wasForced (run es (refresh s)))
                           (isRetrying (run es (refresh s))) True)
                        (run es (refresh s))
                 else []) \<and>
            isRefreshing (step (WsClose w) (run es (refresh s))) =
              (\<not> reconnects (run es (refresh s))))"
proof -
  have r: "retry s = s\<lparr>isRetrying := True\<rparr>" and f: "refresh s = s\<lparr>isRefreshing := True\<rparr>"
    using assms(1) by (simp_all add: retry_def refresh_def priv_close_def)
  have kr: "isRetrying (run es (retry s))"
    using run_keeps_flags[OF assms(2), of "retry s"] by (simp add: r)
  have kf: "isRefreshing (run es (refresh s))"
    using run_keeps_flags[OF assms(2), of "refresh s"] by (simp add: f)
  show ?thesis
    using r f kr kf close_signal_flags[of "run es (retry s)" w]
      close_signal_flags[of "run es (refresh s)" w]
    by simp
qed

theorem retry_without_transport_witness:
  "ws waiting = None \<and>
   retry waiting = waiting\<lparr>isRetrying := True\<rparr> \<and>
   refresh waiting = waiting\<lparr>isRefreshing := True\<rparr> \<and>
   isRetrying (run [Elapse 1000, Fire 2, WsOpen 1] (retry waiting)) \<and>
   reports (run [Elapse 1000, Fire 2, WsOpen 1] (retry waiting)) \<and>
   outputs (step (WsClose 1) (run [Elapse 1000, Fire 2, WsOpen 1] (retry waiting))) =
     [WsNew 0 0, WsNew 1 1000, Handler OnClose (CloseEvt False True False)] \<and>
   outputs (step (WsClose 1) (run [Elapse 1000, Fire 2, WsOpen 1] (refresh waiting))) =
     [WsNew 0 0, WsNew 1 1000, Handler OnClose (CloseEvt False False True)] \<and>
   \<not> isRetrying (step (WsClose 1) (run [Elapse 1000, Fire 2, WsOpen 1] (retry waiting))) \<and>
   isRetrying (run [Elapse 1000, Fire 2] (retry waiting)) \<and>
   \<not> reports (run [Elapse 1000, Fire 2] (retry waiting)) \<and>
   outputs (step (WsClose 1) (run [Elapse 1000, Fire 2] (retry waiting))) =
     [WsNew 0 0, WsNew 1 1000] \<and>
   \<not> isRetrying (step (WsClose 1) (run [Elapse 1000, Fire 2] (retry waiting))) \<and>
   outputs (step (WsClose 1) (run [Elapse 1000, Fire 2, Close] (retry waiting))) =
     [WsNew 0 0, WsNew 1 1000, WsCloseCall 1, Handler OnClose (CloseEvt True True False)] \<and>
   isRetrying (step (WsClose 1) (run [Elapse 1000, Fire 2, Close] (retry waiting)))"
  using retry_without_transport[of waiting "[Elapse 1000, Fire 2, WsOpen 1]" 1]
    retry_without_transport[of waiting "[Elapse 1000, Fire 2]" 1]
    retry_without_transport[of waiting "[Elapse 1000, Fire 2, Close]" 1]
  by (simp add: waiting_def evals reports_def cleared_def reconnects_def)

subsection \<open>Close signals after unload\<close>

lemma callback_hasUnloaded: "hasUnloaded (callback a s) = hasUnloaded s"
  by (cases a) (simp_all add: priv_connect_eq retry_def priv_close_def emit_def priv_trigger_def
      send_def Let_def split: option.splits)

lemma step_hasUnloaded: "hasUnloaded s \<Longrightarrow> hasUnloaded (step e s)"
  by (cases e)
    (simp_all add: priv_onopen_eq priv_onclose_eq fire_def callback_hasUnloaded send_def close_def
      retry_def refresh_def priv_close_def emit_def priv_onmessage_def priv_onerror_def
      priv_trigger_def split: option.splits)

lemma run_hasUnloaded: "hasUnloaded s \<Longrightarrow> hasUnloaded (run es s)"
  by (induction es arbitrary: s) (simp_all add: step_hasUnloaded)

lemma unloaded_close_step:
  assumes "hasUnloaded s" "\<not> wasForced s" "status s w \<noteq> TClosed"
  shows "outputs (step (WsClose w) s) = outputs s \<and>
         timers (step (WsClose w) s) = cleared s \<and>
         nextTimer (step (WsClose w) s) = nextTimer s \<and>
         attempts (step (WsClose w) s) = attempts s \<and>
         readyState (step (WsClose w) s) = readyState s \<and>
         ws (step (WsClose w) s) = None \<and>
         \<not> wasForced (step (WsClose w) s) \<and>
         \<not> forced (annotate s)"
  using assms by (simp add: priv_onclose_eq reconnects_def reports_def annotate_def)

text \<open>
  C3. After \<^verbatim>\<open>onbeforeunload\<close> has set \<^verbatim>\<open>hasUnloaded\<close> the flag stays set, and every
  later close signal that finds \<^verbatim>\<open>wasForced\<close> unset has no effect on the outside (no
  logger line, no handler call), arms no timer (the table is what
  \<^verbatim>\<open>clearTimeout(connectTimer)\<close> leaves), leaves \<^verbatim>\<open>attempts\<close> and \<^verbatim>\<open>readyState\<close> as
  they are, and writes \<^verbatim>\<open>forced = false\<close> on the event.
\<close>

theorem suppressed_close:
  "hasUnloaded (run es (step BeforeUnload s)) \<and>
   (\<not> wasForced (run es (step BeforeUnload s)) \<and>
    status (run es (step BeforeUnload s)) w \<noteq> TClosed \<longrightarrow>
      outputs (step (WsClose w) (run es (step BeforeUnload s))) =
        outputs (run es (step BeforeUnload s)) \<and>
      timers (step (WsClose w) (run es (step BeforeUnload s))) =
        cleared (run es (step BeforeUnload s)) \<and>
      nextTimer (step (WsClose w) (run es (step BeforeUnload s))) =
        nextTimer (run es (step BeforeUnload s)) \<and>
      attempts (step (WsClose w) (run es (step BeforeUnload s))) =
        attempts (run es (step BeforeUnload s)) \<and>
      readyState (step (WsClose w) (run es (step BeforeUnload s))) =
        readyState (run es (step BeforeUnload s)) \<and>
      ws (step (WsClose w) (run es (step BeforeUnload s))) = None \<and>
      \<not> wasForced (step (WsClose w) (run es (step BeforeUnload s))) \<and>
      \<not> forced (annotate (run es (step BeforeUnload s))))"
proof -
  have u: "hasUnloaded (run es (step BeforeUnload s))"
    by (rule run_hasUnloaded) simp
  show ?thesis
    using u unloaded_close_step[OF u, of w] by blast
qed

theorem suppressed_close_witness:
  "\<not> wasForced (run [] (step BeforeUnload open_example)) \<and>
   status (run [] (step BeforeUnload open_example)) 0 \<noteq> TClosed \<and>
   hasOpened (run [] (step BeforeUnload open_example)) \<and>
   OnClose \<in> handlers (run [] (step BeforeUnload open_example)) \<and>
   outputs (run [] (step BeforeUnload open_example)) = [WsNew 0 0] \<and>
   outputs (step (WsClose 0) (run [] (step BeforeUnload open_example))) = [WsNew 0 0] \<and>
   timers (step (WsClose 0) (run [] (step BeforeUnload open_example))) = []"
  using suppressed_close[of "[]" open_example 0]
  by (simp add: open_example_def evals cleared_def)

subsection \<open>An open signal after a forced close\<close>

text \<open>
  C9. In a reachable state with \<^verbatim>\<open>wasForced\<close> set, the open signal of the connecting
  socket makes \<^verbatim>\<open>_onopen\<close> call \<^verbatim>\<open>ws.close()\<close> and nothing else on the outside: no
  open notification, no queued send armed. \<^verbatim>\<open>hasOpened\<close> was false and stays false,
  \<^verbatim>\<open>attempts\<close> and \<^verbatim>\<open>readyState\<close> keep their values. The close signal that follows
  ends in \<^verbatim>\<open>CLOSED\<close>, reports an event with \<^verbatim>\<open>forced = true\<close> and arms no timer.
\<close>

theorem open_after_forced_close:
  assumes "s = run es (RcSocket u p)" and "wasForced s" and "status s w = TConnecting"
  shows "outputs (step (WsOpen w) s) = outputs s @ [WsCloseCall w] \<and>
         \<not> hasOpened s \<and> \<not> hasOpened (step (WsOpen w) s) \<and>
         attempts (step (WsOpen w) s) = attempts s \<and>
         readyState (step (WsOpen w) s) = readyState s \<and>
         wasForced (step (WsOpen w) s) \<and>
         queue (step (WsOpen w) s) = queue s \<and>
         timers (step (WsOpen w) s) = cleared s \<and>
         readyState (step (WsClose w) (step (WsOpen w) s)) = Some WS_CLOSED \<and>
         ws (step (WsClose w) (step (WsOpen w) s)) = None \<and>
         outputs (step (WsClose w) (step (WsOpen w) s)) =
           outputs s @ [WsCloseCall w] @
             triggered OnClose (CloseEvt True (isRetrying s) (isRefreshing s)) s \<and>
         set (timers (step (WsClose w) (step (WsOpen w) s))) \<subseteq> set (timers s)"
proof -
  have inv: "inv_conn s" unfolding assms(1) by (rule inv_conn_run[OF inv_conn_init])
  have lv: "status s w \<noteq> TClosed" using assms(3) by simp
  have wsw: "ws s = Some w" using inv_conn_live[OF inv, of w] lv by simp
  have nho: "\<not> hasOpened s" using inv_conn_hasOpened[OF inv] assms(3) by blast
  have rng: "w < length (sockets s)" using lv by (rule status_in_range)
  define s1 where "s1 = step (WsOpen w) s"
  have s1: "s1 = s\<lparr>sockets := (sockets s)[w := TOpen], timers := cleared s,
                    outputs := outputs s @ [WsCloseCall w]\<rparr>"
    unfolding s1_def using assms(2,3) wsw by (simp add: priv_onopen_eq)
  have st1: "status s1 w \<noteq> TClosed" unfolding s1 using rng by (simp add: status_def)
  have c1: "cleared s1 = cleared s" unfolding s1 by (simp add: cleared_def)
  have p1: "outputs s1 = outputs s @ [WsCloseCall w] \<and>
         \<not> hasOpened s \<and> \<not> hasOpened s1 \<and> attempts s1 = attempts s \<and>
         readyState s1 = readyState s \<and> wasForced s1 \<and> queue s1 = queue s \<and>
         timers s1 = cleared s"
    unfolding s1 using nho assms(2) by simp
  have f1: "wasForced s1" "reconnects s1 = False" "reports s1 = True"
    "annotate s1 = CloseEvt True (isRetrying s) (isRefreshing s)"
    "triggered OnClose (CloseEvt True (isRetrying s) (isRefreshing s)) s1 =
     triggered OnClose (CloseEvt True (isRetrying s) (isRefreshing s)) s"
    "outputs s1 = outputs s @ [WsCloseCall w]"
    unfolding s1 using assms(2)
    by (simp_all add: triggered_def reconnects_def reports_def annotate_def)
  have p2: "readyState (step (WsClose w) s1) = Some WS_CLOSED \<and>
         ws (step (WsClose w) s1) = None \<and>
         outputs (step (WsClose w) s1) =
           outputs s @ [WsCloseCall w] @
             triggered OnClose (CloseEvt True (isRetrying s) (isRefreshing s)) s \<and>
         timers (step (WsClose w) s1) = cleared s"
    using st1 by (simp add: priv_onclose_eq f1 c1)
  have p3: "set (timers (step (WsClose w) s1)) \<subseteq> set (timers s)"
    using p2 cleared_subset[of s] by simp
  show ?thesis unfolding s1_def[symmetric] using p1 p2 p3 by blast
qed

theorem open_after_forced_close_witness:
  "wasForced forced_connecting \<and>
   status forced_connecting 1 = TConnecting \<and>
   attempts forced_connecting = 2 \<and>
   outputs (step (WsOpen 1) forced_connecting) = [WsNew 0 0, WsNew 1 1000, WsCloseCall 1] \<and>
   \<not> hasOpened (step (WsOpen 1) forced_connecting) \<and>
   attempts (step (WsOpen 1) forced_connecting) = 2 \<and>
   readyState (step (WsOpen 1) forced_connecting) = Some WS_CONNECTING \<and>
   timers (step (WsOpen 1) forced_connecting) = [] \<and>
   readyState (step (WsClose 1) (step (WsOpen 1) forced_connecting)) = Some WS_CLOSED \<and>
   outputs (step (WsClose 1) (step (WsOpen 1) forced_connecting)) =
     [WsNew 0 0, WsNew 1 1000, WsCloseCall 1, Handler OnClose (CloseEvt True False False)]"
  using open_after_forced_close[of forced_connecting
      "[SetHandler OnOpen True, SetHandler OnClose True, Fire 0, WsClose 0, Close,
        Elapse 1000, Fire 2]" "''ws://host''" "[]" 1]
  by (simp add: forced_connecting_def evals cleared_def)

subsection \<open>The connect timeout\<close>

lemma triggered_notifies: "x \<in> set (triggered n e s) \<Longrightarrow> notifies m x = (n = m)"
  by (auto simp: triggered_def split: if_splits)

lemma news_eq: "outputs (step e s) = outputs s @ X \<Longrightarrow> news e s = X"
  by (simp add: news_def)

lemma callback_outputs:
  "outputs (callback a s) = outputs s @
     (case a of
        Connect \<Rightarrow> [WsNew (length (sockets s)) (now s)] @ triggered OnConnecting NoEvt s
      | ConnectTimeout \<Rightarrow>
          triggered OnTimeout NoEvt s @ (case ws s of Some w \<Rightarrow> [WsCloseCall w] | None \<Rightarrow> [])
      | QueueSend i \<Rightarrow>
          (case ws s of
             Some w \<Rightarrow> if truthy (readyState s) then [WsSend w (js_nth (queue s) i)] else []
           | None \<Rightarrow> []))"
  by (cases a)
    (simp_all add: priv_connect_eq retry_def priv_close_def emit_def priv_trigger_def send_def
      Let_def triggered_def split: option.splits)

lemma fire_news:
  "news (Fire i) s =
     (case find (\<lambda>t. tid t = i) (timers s) of
        None \<Rightarrow> []
      | Some t \<Rightarrow>
          if due t \<le> now s then
            (case act t of
               Connect \<Rightarrow> [WsNew (length (sockets s)) (now s)] @ triggered OnConnecting NoEvt s
             | ConnectTimeout \<Rightarrow>
                 triggered OnTimeout NoEvt s @
                 (case ws s of Some w \<Rightarrow> [WsCloseCall w] | None \<Rightarrow> [])
             | QueueSend j \<Rightarrow>
                 (case ws s of
                    Some w \<Rightarrow> if truthy (readyState s) then [WsSend w (js_nth (queue s) j)] else []
                  | None \<Rightarrow> []))
          else [])"
  by (rule news_eq) (simp add: fire_def callback_outputs split: option.splits action.splits)

lemma quiet_step:
  assumes "\<not> fires ConnectTimeout e s" and "x \<in> set (news e s)"
  shows "\<not> notifies OnTimeout x"
proof (cases e)
  case (Fire i)
  then show ?thesis
    using assms
    by (auto simp: fire_news fires_def triggered_notifies
        split: option.splits if_splits action.splits)
next
  case (WsOpen w)
  then show ?thesis
    using assms
    by (auto simp: news_def priv_onopen_eq triggered_notifies split: option.splits if_splits)
next
  case (WsClose w)
  then show ?thesis
    using assms
    by (auto simp: news_def priv_onclose_eq triggered_notifies split: option.splits if_splits)
qed (use assms in \<open>auto simp: news_def send_def close_def retry_def refresh_def priv_close_def
      emit_def priv_onmessage_def priv_onerror_def priv_trigger_def triggered_notifies
      split: option.splits if_splits\<close>)

lemma fires_find:
  "fires a e s \<Longrightarrow> \<exists>i t. e = Fire i \<and> find (\<lambda>t. tid t = i) (timers s) = Some t \<and>
     act t = a \<and> due t \<le> now s \<and> t \<in> set (timers s) \<and> tid t = i"
  by (cases e) (auto simp: fires_def find_Some_iff split: option.splits)

lemma connect_arms_timeout:
  assumes "fires Connect e s"
  shows "timers (step e s) =
           filter (\<lambda>t. Fire (tid t) \<noteq> e) (timers s) @
           [\<lparr>tid = nextTimer s, due = now s + timeout s, act = ConnectTimeout\<rparr>] \<and>
         connectTimer (step e s) = Some (nextTimer s)"
proof -
  from fires_find[OF assms] obtain i t where
    "e = Fire i" "find (\<lambda>t. tid t = i) (timers s) = Some t" "act t = Connect" "due t \<le> now s"
    by blast
  then show ?thesis by (simp add: fire_def priv_connect_eq)
qed

lemma signal_cancels_timeout:
  assumes inv: "inv_conn s" and sg: "signals e s" and t: "t \<in> set (timers (step e s))"
  shows "act t \<noteq> ConnectTimeout"
proof (cases e)
  case (WsOpen w)
  then have lv: "status s w \<noteq> TClosed" and cn: "status s w = TConnecting"
    using sg by (simp_all add: signals_def)
  note cur = inv_conn_current[OF inv lv]
  have "t \<in> set (cleared s) \<or> (\<exists>i. act t = QueueSend i)"
    using t WsOpen cn by (auto simp: priv_onopen_eq split: if_splits)
  then show ?thesis using cur(4) by auto
next
  case (WsClose w)
  then have lv: "status s w \<noteq> TClosed" using sg by (simp add: signals_def)
  note cur = inv_conn_current[OF inv lv]
  have "t \<in> set (cleared s) \<or> act t = Connect"
    using t WsClose lv by (auto simp: priv_onclose_eq split: if_splits)
  then show ?thesis using cur(4) by auto
qed (use sg in \<open>simp_all add: signals_def\<close>)

lemma callback_keeps_timers: "t \<in> set (timers s) \<Longrightarrow> t \<in> set (timers (callback a s))"
  by (cases a) (simp_all add: priv_connect_eq retry_def priv_close_def emit_def priv_trigger_def
      send_def Let_def split: option.splits)

lemma timeout_stays_pending:
  assumes "t \<in> set (timers s)" and "\<not> signals e s" and "e \<noteq> Fire (tid t)"
  shows "t \<in> set (timers (step e s))"
proof (cases e)
  case (Fire i)
  then have "tid t \<noteq> i" using assms(3) by auto
  then have "t \<in> set (timers (s\<lparr>timers := filter (\<lambda>t. tid t \<noteq> i) (timers s)\<rparr>))"
    using assms(1) by simp
  then show ?thesis using Fire assms(1)
    by (simp add: fire_def callback_keeps_timers split: option.splits)
qed (use assms in \<open>simp_all add: signals_def send_def close_def retry_def refresh_def priv_close_def
      emit_def priv_onmessage_def priv_onerror_def priv_trigger_def split: option.splits\<close>)

lemma timeout_stays_pending_run:
  assumes "t \<in> set (timers s)"
    and "\<forall>e \<in> set es. (\<forall>w. e \<noteq> WsOpen w \<and> e \<noteq> WsClose w) \<and> e \<noteq> Fire (tid t)"
  shows "t \<in> set (timers (run es s))"
  using assms
proof (induction es arbitrary: s)
  case Nil
  then show ?case by simp
next
  case (Cons e es)
  then have e: "\<forall>w. e \<noteq> WsOpen w \<and> e \<noteq> WsClose w" "e \<noteq> Fire (tid t)"
    and es: "\<forall>e \<in> set es. (\<forall>w. e \<noteq> WsOpen w \<and> e \<noteq> WsClose w) \<and> e \<noteq> Fire (tid t)"
    by simp_all
  have "\<not> signals e s" using e(1) by (cases e) (simp_all add: signals_def)
  then have "t \<in> set (timers (step e s))"
    using timeout_stays_pending[OF Cons.prems(1) _ e(2)] by simp
  then show ?case using Cons.IH[OF _ es] by simp
qed

lemma timeout_fires_effect:
  assumes inv: "inv_conn s" and f: "fires ConnectTimeout e s"
  shows "(\<exists>w. ws s = Some w \<and> status s w = TConnecting \<and>
              news e s = triggered OnTimeout NoEvt s @ [WsCloseCall w]) \<and>
         isRetrying (step e s)"
proof -
  from fires_find[OF f] obtain i t where
    e: "e = Fire i" and fd: "find (\<lambda>t. tid t = i) (timers s) = Some t"
    and a: "act t = ConnectTimeout" and d: "due t \<le> now s" and m: "t \<in> set (timers s)"
    by blast
  from inv_conn_ConnectTimeout[OF inv m a] obtain w where
    w: "ws s = Some w" "status s w = TConnecting" by blast
  have n: "news e s = triggered OnTimeout NoEvt s @ [WsCloseCall w]"
    using e fd a d w(1) by (simp add: fire_news)
  have r: "isRetrying (step e s)"
    using e fd a d by (simp add: fire_def retry_def priv_close_def emit_def priv_trigger_def
        split: option.splits)
  show ?thesis using w n r by blast
qed

lemma no_timeout_without_socket:
  "inv_conn s \<Longrightarrow> ws s = None \<Longrightarrow> filter (\<lambda>t. act t = ConnectTimeout) (timers s) = []"
proof -
  assume inv: "inv_conn s" and n: "ws s = None"
  have "\<And>t. t \<in> set (timers s) \<Longrightarrow> act t \<noteq> ConnectTimeout"
    using inv_conn_ConnectTimeout[OF inv] n by fastforce
  then show ?thesis by (simp add: filter_empty_conv)
qed

lemma timeouts_fire:
  assumes inv: "inv_conn s" and d: "inv_distinct s"
    and fd: "find (\<lambda>t. tid t = i) (timers s) = Some t" and du: "due t \<le> now s"
  shows "timeouts (fire i s) =
           (case act t of Connect \<Rightarrow> [now s + timeout s]
            | ConnectTimeout \<Rightarrow> []
            | QueueSend j \<Rightarrow> timeouts s)"
proof -
  from fd have t: "t \<in> set (timers s)" "tid t = i" by (auto simp: find_Some_iff)
  let ?ts = "filter (\<lambda>x. tid x \<noteq> i) (timers s)"
  show ?thesis
  proof (cases "act t")
    case Connect
    have "ws s = None" using inv_conn_Connect[OF inv t(1) Connect] by simp
    then have "filter (\<lambda>t. act t = ConnectTimeout) (timers s) = []"
      by (rule no_timeout_without_socket[OF inv])
    then have "filter (\<lambda>t. act t = ConnectTimeout) ?ts = []"
      by (auto simp: filter_empty_conv)
    then show ?thesis using fd du Connect
      by (simp add: fire_def timeouts_def priv_connect_eq)
  next
    case ConnectTimeout
    have "\<And>t'. t' \<in> set (timers s) \<Longrightarrow> act t' = ConnectTimeout \<Longrightarrow> tid t' = i"
      using inv_conn_ConnectTimeout[OF inv] inv_conn_ConnectTimeout[OF inv t(1) ConnectTimeout] t(2)
      by fastforce
    then have "filter (\<lambda>t. act t = ConnectTimeout) ?ts = []"
      by (auto simp: filter_empty_conv)
    then show ?thesis using fd du ConnectTimeout
      by (simp add: fire_def timeouts_def retry_def priv_close_def emit_def priv_trigger_def
          split: option.splits)
  next
    case (QueueSend j)
    have "\<And>t'. t' \<in> set (timers s) \<Longrightarrow> act t' = ConnectTimeout \<Longrightarrow> tid t' \<noteq> i"
      using same_handle[OF d _ t(1)] t(2) QueueSend by fastforce
    then have "filter (\<lambda>t. act t = ConnectTimeout) ?ts = filter (\<lambda>t. act t = ConnectTimeout) (timers s)"
      by (simp add: filter_filter) (rule filter_cong, auto)
    then show ?thesis using fd du QueueSend
      by (simp add: fire_def timeouts_def send_def emit_def Let_def split: option.splits)
  qed
qed

lemma step_timeouts:
  assumes inv: "inv_conn s" and d: "inv_distinct s"
  shows "timeouts (step e s) =
           (if fires Connect e s then [now s + timeout s]
            else if signals e s \<or> fires ConnectTimeout e s then []
            else timeouts s)"
proof (cases e)
  case (Fire i)
  show ?thesis
  proof (cases "find (\<lambda>t. tid t = i) (timers s)")
    case None
    then show ?thesis using Fire by (simp add: fire_def fires_def signals_def)
  next
    case (Some t)
    show ?thesis
    proof (cases "due t \<le> now s")
      case True
      show ?thesis
        using timeouts_fire[OF inv d Some True] Fire Some True
        by (cases "act t") (simp_all add: fires_def signals_def)
    next
      case False
      then show ?thesis using Fire Some by (simp add: fire_def fires_def signals_def)
    qed
  qed
next
  case (WsOpen w)
  show ?thesis
  proof (cases "status s w = TConnecting")
    case True
    then have sg: "signals e s" using WsOpen by (simp add: signals_def)
    have "\<And>t. t \<in> set (timers (step e s)) \<Longrightarrow> act t \<noteq> ConnectTimeout"
      using signal_cancels_timeout[OF inv sg] by blast
    then have "timeouts (step e s) = []" by (simp add: timeouts_def filter_empty_conv)
    then show ?thesis using sg WsOpen by (simp add: fires_def)
  next
    case False
    then show ?thesis using WsOpen by (simp add: fires_def signals_def)
  qed
next
  case (WsClose w)
  show ?thesis
  proof (cases "status s w \<noteq> TClosed")
    case True
    then have sg: "signals e s" using WsClose by (simp add: signals_def)
    have "\<And>t. t \<in> set (timers (step e s)) \<Longrightarrow> act t \<noteq> ConnectTimeout"
      using signal_cancels_timeout[OF inv sg] by blast
    then have "timeouts (step e s) = []" by (simp add: timeouts_def filter_empty_conv)
    then show ?thesis using sg WsClose by (simp add: fires_def)
  next
    case False
    then show ?thesis using WsClose by (simp add: fires_def signals_def)
  qed
qed (simp_all add: timeouts_def fires_def signals_def send_def close_def retry_def refresh_def
      priv_close_def emit_def priv_onmessage_def priv_onerror_def priv_trigger_def
      split: option.splits)

lemma run_timeouts:
  assumes "inv_conn s" and "inv_timers s" and "inv_distinct s"
    and "timeouts s = (case d of None \<Rightarrow> [] | Some x \<Rightarrow> [x])"
  shows "timeouts (run es s) = (case deadline es s d of None \<Rightarrow> [] | Some x \<Rightarrow> [x])"
  using assms
proof (induction es arbitrary: s d)
  case Nil
  then show ?case by simp
next
  case (Cons e es)
  let ?d = "if fires Connect e s then Some (now s + timeout s)
            else if signals e s \<or> fires ConnectTimeout e s then None else d"
  have t: "timeouts (step e s) = (case ?d of None \<Rightarrow> [] | Some x \<Rightarrow> [x])"
    using step_timeouts[OF Cons.prems(1,3), of e] Cons.prems(4) by simp
  have "timeouts (run es (step e s)) =
      (case deadline es (step e s) ?d of None \<Rightarrow> [] | Some x \<Rightarrow> [x])"
    using inv_conn_step[OF Cons.prems(1)] inv_timers_step[OF Cons.prems(2)]
      inv_distinct_step[OF Cons.prems(2,3)] t
    by (rule Cons.IH)
  then show ?case by simp
qed

lemma reachable_timeouts:
  "timeouts (run es (RcSocket u p)) =
     (case deadline es (RcSocket u p) None of None \<Rightarrow> [] | Some x \<Rightarrow> [x])"
  by (rule run_timeouts[OF inv_conn_init inv_timers_init inv_distinct_init])
    (simp add: timeouts_def RcSocket_def setTimeout_def)

lemma fires_timeout_iff:
  assumes inv: "inv_conn s" and d: "inv_distinct s"
    and tm: "timeouts s = (case D of None \<Rightarrow> [] | Some x \<Rightarrow> [x])"
  shows "fires ConnectTimeout e s \<longleftrightarrow>
           (\<exists>x i. D = Some x \<and> x \<le> now s \<and> connectTimer s = Some i \<and> e = Fire i)"
proof
  assume "fires ConnectTimeout e s"
  from fires_find[OF this] obtain i t where
    e: "e = Fire i" and a: "act t = ConnectTimeout" and du: "due t \<le> now s"
    and m: "t \<in> set (timers s)" and i: "tid t = i"
    by blast
  have "due t \<in> set (timeouts s)" using m a by (auto simp: timeouts_def)
  then have "D = Some (due t)" using tm by (cases D) simp_all
  moreover have "connectTimer s = Some i" using inv_conn_ConnectTimeout[OF inv m a] i by simp
  ultimately show "\<exists>x i. D = Some x \<and> x \<le> now s \<and> connectTimer s = Some i \<and> e = Fire i"
    using du e by blast
next
  assume "\<exists>x i. D = Some x \<and> x \<le> now s \<and> connectTimer s = Some i \<and> e = Fire i"
  then obtain x i where D: "D = Some x" and x: "x \<le> now s"
    and c: "connectTimer s = Some i" and e: "e = Fire i"
    by blast
  have "map due (filter (\<lambda>t. act t = ConnectTimeout) (timers s)) = [x]"
    using tm D by (simp add: timeouts_def)
  then obtain t where f: "filter (\<lambda>t. act t = ConnectTimeout) (timers s) = [t]" and dt: "due t = x"
    by (auto simp: map_eq_Cons_conv)
  have "t \<in> set (filter (\<lambda>t. act t = ConnectTimeout) (timers s))" unfolding f by simp
  then have m: "t \<in> set (timers s)" and a: "act t = ConnectTimeout" by simp_all
  have i: "tid t = i" using inv_conn_ConnectTimeout[OF inv m a] c by simp
  obtain t' where fd: "find (\<lambda>t. tid t = i) (timers s) = Some t'"
    using m i by (cases "find (\<lambda>t. tid t = i) (timers s)") (auto simp: find_None_iff)
  then have "t' \<in> set (timers s)" "tid t' = i" by (auto simp: find_Some_iff)
  then have "t' = t" using same_handle[OF d _ m] i by simp
  then show "fires ConnectTimeout e s"
    using e fd a dt x by (simp add: fires_def)
qed

lemma notified_iff:
  assumes inv: "inv_conn s"
  shows "(\<exists>x \<in> set (news e s). notifies OnTimeout x) \<longleftrightarrow>
           fires ConnectTimeout e s \<and> triggered OnTimeout NoEvt s \<noteq> []"
proof
  assume n: "\<exists>x \<in> set (news e s). notifies OnTimeout x"
  then obtain x where x: "x \<in> set (news e s)" "notifies OnTimeout x" by blast
  have f: "fires ConnectTimeout e s" using quiet_step[of e s x] x by blast
  from timeout_fires_effect[OF inv f] obtain w where
    "news e s = triggered OnTimeout NoEvt s @ [WsCloseCall w]" by blast
  then have "x \<in> set (triggered OnTimeout NoEvt s)" using x by auto
  then show "fires ConnectTimeout e s \<and> triggered OnTimeout NoEvt s \<noteq> []" using f by auto
next
  assume a: "fires ConnectTimeout e s \<and> triggered OnTimeout NoEvt s \<noteq> []"
  from timeout_fires_effect[OF inv] a obtain w where
    n: "news e s = triggered OnTimeout NoEvt s @ [WsCloseCall w]" by blast
  from a obtain x where x: "x \<in> set (triggered OnTimeout NoEvt s)"
    by (cases "triggered OnTimeout NoEvt s") auto
  have "notifies OnTimeout x" using triggered_notifies[OF x, of OnTimeout] by simp
  then show "\<exists>x \<in> set (news e s). notifies OnTimeout x" using x n by auto
qed

text \<open>
  C8, as the claim states it, fails in its ``if'' half. \<^verbatim>\<open>ontimeout\<close> is assigned and the
  first attempt starts at 0 with the timeout due at 2500. At 3000 the timer has not been
  run yet and the socket has given no signal; then the open signal arrives. \<^verbatim>\<open>_onopen\<close>
  clears the timer, and no timeout is ever notified for this attempt, which reached
  neither open nor close within 2500 ms.
\<close>

theorem late_signal_cancels_timeout:
  "timers (run [SetHandler OnTimeout True, Fire 0, Elapse 3000] (RcSocket ''ws://host'' [])) =
     [\<lparr>tid = 1, due = 2500, act = ConnectTimeout\<rparr>] \<and>
   now (run [SetHandler OnTimeout True, Fire 0, Elapse 3000] (RcSocket ''ws://host'' [])) = 3000 \<and>
   status (run [SetHandler OnTimeout True, Fire 0, Elapse 3000] (RcSocket ''ws://host'' [])) 0 =
     TConnecting \<and>
   outputs (run [SetHandler OnTimeout True, Fire 0, Elapse 3000] (RcSocket ''ws://host'' [])) =
     [WsNew 0 0] \<and>
   outputs (run [SetHandler OnTimeout True, Fire 0, Elapse 3000, WsOpen 0]
              (RcSocket ''ws://host'' [])) = [WsNew 0 0] \<and>
   timers (run [SetHandler OnTimeout True, Fire 0, Elapse 3000, WsOpen 0]
             (RcSocket ''ws://host'' [])) = [] \<and>
   outputs (run [SetHandler OnTimeout True, Fire 0, Elapse 3000, WsOpen 0, Elapse 5000, Fire 1]
              (RcSocket ''ws://host'' [])) = [WsNew 0 0]"
  by (simp add: evals cleared_def)

text \<open>
  C8, amended. In every reachable state a connect timeout is pending exactly while an
  attempt is under way that has reached neither the open nor the close signal nor its
  timeout, and it is due \<^verbatim>\<open>timeout\<close> ms after the attempt started. A step fires it if and
  only if such an attempt is under way, that due time has come, and the step runs the timer
  \<^verbatim>\<open>connectTimer\<close> names. A step notifies \<^verbatim>\<open>ontimeout\<close> (on the logger or the owner's
  handler, whichever is on) if and only if it fires the connect timeout. So a timeout is
  notified if and only if the attempt has reached neither open nor close when the host runs
  the timer, which is never earlier than \<^verbatim>\<open>timeout\<close> ms after the attempt started; a signal
  that comes later than that but before the host runs the timer still cancels it. The step
  that fires the timer sets \<^verbatim>\<open>isRetrying\<close> and calls \<^verbatim>\<open>ws.close()\<close> right after the
  notification. The timer is armed by the step that starts the attempt, no connect timeout
  is pending after an open or close signal, and a run without a signal and without the
  firing keeps it pending.
\<close>

theorem connect_timeout:
  assumes "s = run es (RcSocket u p)"
  shows "timeouts s = (case deadline es (RcSocket u p) None of None \<Rightarrow> [] | Some x \<Rightarrow> [x]) \<and>
         (fires ConnectTimeout e s \<longleftrightarrow>
            (\<exists>x i. deadline es (RcSocket u p) None = Some x \<and> x \<le> now s \<and>
                   connectTimer s = Some i \<and> e = Fire i)) \<and>
         ((\<exists>x \<in> set (news e s). notifies OnTimeout x) \<longleftrightarrow>
            fires ConnectTimeout e s \<and> triggered OnTimeout NoEvt s \<noteq> []) \<and>
         (fires ConnectTimeout e s \<longrightarrow>
            (\<exists>w. ws s = Some w \<and> status s w = TConnecting \<and>
                 news e s = triggered OnTimeout NoEvt s @ [WsCloseCall w]) \<and>
            isRetrying (step e s)) \<and>
         (fires Connect e s \<longrightarrow>
            timers (step e s) =
              filter (\<lambda>t. Fire (tid t) \<noteq> e) (timers s) @
              [\<lparr>tid = nextTimer s, due = now s + timeout s, act = ConnectTimeout\<rparr>] \<and>
            connectTimer (step e s) = Some (nextTimer s)) \<and>
         (signals e s \<longrightarrow> (\<forall>t \<in> set (timers (step e s)). act t \<noteq> ConnectTimeout)) \<and>
         (\<forall>t \<in> set (timers s).
            act t = ConnectTimeout \<and>
            (\<forall>e' \<in> set es'. (\<forall>w. e' \<noteq> WsOpen w \<and> e' \<noteq> WsClose w) \<and> e' \<noteq> Fire (tid t)) \<longrightarrow>
            t \<in> set (timers (run es' s)))"
proof -
  have inv: "inv_conn s" unfolding assms by (rule inv_conn_run[OF inv_conn_init])
  have d: "inv_distinct s" unfolding assms
    by (rule inv_handles_run[OF inv_timers_init inv_distinct_init])
  have tm: "timeouts s = (case deadline es (RcSocket u p) None of None \<Rightarrow> [] | Some x \<Rightarrow> [x])"
    unfolding assms by (rule reachable_timeouts)
  show ?thesis
    using tm fires_timeout_iff[OF inv d tm, of e] notified_iff[OF inv, of e]
      timeout_fires_effect[OF inv, of e] connect_arms_timeout[of e s]
      signal_cancels_timeout[OF inv, of e] timeout_stays_pending_run[of _ s es']
    by blast
qed

theorem connect_timeout_witness:
  "deadline [SetHandler OnTimeout True, Fire 0, Elapse 2500] (RcSocket ''ws://host'' []) None =
     Some 2500 \<and>
   timeouts timing_out = [2500] \<and> now timing_out = 2500 \<and>
   connectTimer timing_out = Some 1 \<and>
   fires ConnectTimeout (Fire 1) timing_out \<and>
   ws timing_out = Some 0 \<and> status timing_out 0 = TConnecting \<and>
   news (Fire 1) timing_out = [Handler OnTimeout NoEvt, WsCloseCall 0] \<and>
   isRetrying (step (Fire 1) timing_out) \<and>
   \<not> fires ConnectTimeout (Fire 1)
       (run [SetHandler OnTimeout True, Fire 0, Elapse 2499] (RcSocket ''ws://host'' [])) \<and>
   news (Fire 1)
       (run [SetHandler OnTimeout True, Fire 0, Elapse 2499] (RcSocket ''ws://host'' [])) = [] \<and>
   deadline [SetHandler OnTimeout True, Fire 0, Elapse 1000, WsOpen 0, Elapse 5000]
     (RcSocket ''ws://host'' []) None = None \<and>
   news (Fire 1)
       (run [SetHandler OnTimeout True, Fire 0, Elapse 1000, WsOpen 0, Elapse 5000]
          (RcSocket ''ws://host'' [])) = [] \<and>
   fires Connect (Fire 0) (RcSocket ''ws://host'' []) \<and>
   timers (step (Fire 0) (RcSocket ''ws://host'' [])) =
     [\<lparr>tid = 1, due = 2500, act = ConnectTimeout\<rparr>] \<and>
   signals (WsOpen 0) connecting_example \<and>
   timers (step (WsOpen 0) connecting_example) = [] \<and>
   signals (WsClose 0) connecting_example \<and>
   timers (step (WsClose 0) connecting_example) = [\<lparr>tid = 2, due = 1000, act = Connect\<rparr>] \<and>
   timers (run [Send (Data ''a''), Elapse 1000, Refresh] connecting_example) =
     [\<lparr>tid = 1, due = 2500, act = ConnectTimeout\<rparr>]"
  using connect_timeout[of timing_out "[SetHandler OnTimeout True, Fire 0, Elapse 2500]"
      "''ws://host''" "[]" "Fire 1" "[]"]
    connect_timeout[of
      "run [SetHandler OnTimeout True, Fire 0, Elapse 2499] (RcSocket ''ws://host'' [])"
      "[SetHandler OnTimeout True, Fire 0, Elapse 2499]" "''ws://host''" "[]" "Fire 1" "[]"]
    connect_timeout[of
      "run [SetHandler OnTimeout True, Fire 0, Elapse 1000, WsOpen 0, Elapse 5000]
         (RcSocket ''ws://host'' [])"
      "[SetHandler OnTimeout True, Fire 0, Elapse 1000, WsOpen 0, Elapse 5000]"
      "''ws://host''" "[]" "Fire 1" "[]"]
    connect_timeout[of "RcSocket ''ws://host'' []" "[]" "''ws://host''" "[]" "Fire 0" "[]"]
    connect_timeout[of connecting_example "[SetHandler OnClose True, Fire 0]" "''ws://host''"
      "[]" "WsOpen 0" "[]"]
    connect_timeout[of connecting_example "[SetHandler OnClose True, Fire 0]" "''ws://host''"
      "[]" "WsClose 0" "[Send (Data ''a''), Elapse 1000, Refresh]"]
  by (simp add: connecting_example_def timing_out_def evals cleared_def fires_def signals_def
      news_def reconnects_def timeouts_def)

subsection \<open>Retry and refresh with a socket\<close>







subsection \<open>The owner's close\<close>

lemma triggered_not_new: "filter isWsNew (triggered n e s) = []"
  by (simp add: triggered_def)

lemma filter_shrinks: "length (filter P (filter Q ts)) \<le> length (filter P ts)"
  by (induction ts) auto

lemma filter_removes:
  "t \<in> set ts \<Longrightarrow> P t \<Longrightarrow>
   length (filter P (filter (\<lambda>x. tid x \<noteq> tid t) ts)) < length (filter P ts)"
proof (induction ts)
  case Nil
  then show ?case by simp
next
  case (Cons x ts)
  have le: "length (filter P (filter (\<lambda>x. tid x \<noteq> tid t) ts)) \<le> length (filter P ts)"
    by (rule filter_shrinks)
  show ?case
  proof (cases "x = t")
    case True
    then show ?thesis using Cons.prems le by simp
  next
    case False
    then have "t \<in> set ts" using Cons.prems by simp
    then show ?thesis using Cons.IH Cons.prems by simp
  qed
qed

lemma forced_callback:
  assumes "wasForced s" "t \<in> set (timers s)" "due t \<le> now s"
  shows "wasForced (callback (act t) (s\<lparr>timers := filter (\<lambda>x. tid x \<noteq> tid t) (timers s)\<rparr>)) \<and>
         pendingConnects (callback (act t) (s\<lparr>timers := filter (\<lambda>x. tid x \<noteq> tid t) (timers s)\<rparr>)) +
         connects (callback (act t) (s\<lparr>timers := filter (\<lambda>x. tid x \<noteq> tid t) (timers s)\<rparr>))
         \<le> pendingConnects s + connects s"
proof (cases "act t")
  case Connect
  then have "length (filter (\<lambda>t. act t = Connect) (filter (\<lambda>x. tid x \<noteq> tid t) (timers s)))
      < length (filter (\<lambda>t. act t = Connect) (timers s))"
    using assms(2) by (intro filter_removes) simp_all
  then show ?thesis using assms(1) Connect
    by (simp add: priv_connect_eq pendingConnects_def connects_def triggered_not_new)
next
  case ConnectTimeout
  have "length (filter (\<lambda>t. act t = Connect) (filter (\<lambda>x. tid x \<noteq> tid t) (timers s)))
      \<le> length (filter (\<lambda>t. act t = Connect) (timers s))"
    by (rule filter_shrinks)
  then show ?thesis using assms(1) ConnectTimeout
    by (simp add: retry_def priv_close_def emit_def priv_trigger_def pendingConnects_def
        connects_def triggered_not_new split: option.splits)
next
  case (QueueSend i)
  have "length (filter (\<lambda>t. act t = Connect) (filter (\<lambda>x. tid x \<noteq> tid t) (timers s)))
      \<le> length (filter (\<lambda>t. act t = Connect) (timers s))"
    by (rule filter_shrinks)
  then show ?thesis using assms(1) QueueSend
    by (simp add: send_def emit_def pendingConnects_def connects_def Let_def split: option.splits)
qed

lemma forced_step:
  assumes "wasForced s"
  shows "wasForced (step e s) \<and>
         pendingConnects (step e s) + connects (step e s) \<le> pendingConnects s + connects s"
proof (cases e)
  case (Fire i)
  show ?thesis
  proof (cases "find (\<lambda>t. tid t = i) (timers s)")
    case None
    then show ?thesis using Fire assms by (simp add: fire_def)
  next
    case (Some t)
    then have t: "t \<in> set (timers s)" "tid t = i" by (auto simp: find_Some_iff)
    show ?thesis
    proof (cases "due t \<le> now s")
      case True
      then show ?thesis
        using forced_callback[OF assms t(1) True] Fire Some t(2) by (simp add: fire_def)
    next
      case False
      then show ?thesis using Fire Some assms by (simp add: fire_def)
    qed
  qed
next
  case (WsOpen w)
  have "length (filter (\<lambda>t. act t = Connect) (cleared s)) \<le> length (filter (\<lambda>t. act t = Connect) (timers s))"
    unfolding cleared_def by (rule filter_shrinks)
  then show ?thesis using WsOpen assms
    by (simp add: priv_onopen_eq pendingConnects_def connects_def split: option.splits)
next
  case (WsClose w)
  have "length (filter (\<lambda>t. act t = Connect) (cleared s)) \<le> length (filter (\<lambda>t. act t = Connect) (timers s))"
    unfolding cleared_def by (rule filter_shrinks)
  then show ?thesis using WsClose assms
    by (simp add: priv_onclose_eq pendingConnects_def connects_def reconnects_def
        triggered_not_new)
qed (use assms in \<open>simp_all add: send_def close_def retry_def refresh_def priv_close_def
      emit_def priv_onmessage_def priv_onerror_def priv_trigger_def pendingConnects_def
      connects_def triggered_not_new split: option.splits\<close>)

lemma forced_run:
  "wasForced s \<Longrightarrow>
   wasForced (run es s) \<and>
   pendingConnects (run es s) + connects (run es s) \<le> pendingConnects s + connects s"
proof (induction es arbitrary: s)
  case Nil
  then show ?case by simp
next
  case (Cons e es)
  from forced_step[OF Cons.prems, of e] have
    f: "wasForced (step e s)" and
    l: "pendingConnects (step e s) + connects (step e s) \<le> pendingConnects s + connects s"
    by simp_all
  from Cons.IH[OF f] l show ?case by simp
qed

lemma closed_step:
  assumes inv: "inv_conn s" and c: "readyState s = Some WS_CLOSED"
  shows "readyState (step e s) = Some WS_CLOSED \<and> ws (step e s) = None \<and>
         connects (step e s) = connects s"
proof -
  from inv_conn_CLOSED[OF inv c] have
    nows: "ws s = None" and nocon: "\<forall>t \<in> set (timers s). act t \<noteq> Connect" by simp_all
  have dead: "\<And>w. status s w = TClosed" using inv_conn_live[OF inv] nows by simp
  have noct: "\<And>t. t \<in> set (timers s) \<Longrightarrow> act t \<noteq> ConnectTimeout"
    using inv_conn_ConnectTimeout[OF inv] nows by fastforce
  show ?thesis
  proof (cases e)
    case (Fire i)
    show ?thesis
    proof (cases "find (\<lambda>t. tid t = i) (timers s)")
      case None
      then show ?thesis using Fire c nows by (simp add: fire_def)
    next
      case (Some t)
      then have t: "t \<in> set (timers s)" by (auto simp: find_Some_iff)
      then obtain j where "act t = QueueSend j"
        using nocon noct[OF t] by (cases "act t") auto
      then show ?thesis using Fire Some c nows
        by (simp add: fire_def send_def Let_def connects_def)
    qed
  qed (use c nows dead in \<open>simp_all add: send_def close_def retry_def refresh_def priv_close_def
        connects_def\<close>)
qed

lemma closed_run:
  "inv_conn s \<Longrightarrow> readyState s = Some WS_CLOSED \<Longrightarrow>
   readyState (run es s) = Some WS_CLOSED \<and> ws (run es s) = None \<and>
   connects (run es s) = connects s"
proof (induction es arbitrary: s)
  case Nil
  then show ?case using inv_conn_CLOSED[OF Nil.prems] by simp
next
  case (Cons e es)
  from closed_step[OF Cons.prems, of e] have
    c: "readyState (step e s) = Some WS_CLOSED" and n: "connects (step e s) = connects s"
    by simp_all
  from Cons.IH[OF inv_conn_step[OF Cons.prems(1)] c] n show ?case by simp
qed

lemma forced_close_signal:
  assumes "wasForced s" and "status s w \<noteq> TClosed"
  shows "readyState (step (WsClose w) s) = Some WS_CLOSED \<and>
         ws (step (WsClose w) s) = None \<and>
         outputs (step (WsClose w) s) =
           outputs s @ triggered OnClose (CloseEvt True (isRetrying s) (isRefreshing s)) s \<and>
         timers (step (WsClose w) s) = cleared s"
  using assms by (simp add: priv_onclose_eq reconnects_def reports_def annotate_def)

text \<open>
  What \<^verbatim>\<open>wasForced\<close> does achieve, from any state: once \<^verbatim>\<open>close()\<close> has set it, it
  stays set and no connect is scheduled any more (the scheduled and the made connects
  never grow together); a socket that exists at the call is told to close; every later
  close signal ends in \<^verbatim>\<open>CLOSED\<close> without a socket, reports \<^verbatim>\<open>forced = true\<close> and arms
  no timer; and an object that has reached \<^verbatim>\<open>CLOSED\<close> stays there and makes no connect
  attempt.
\<close>

lemma forced_stays_forced:
  "wasForced (run es (close s)) \<and>
   pendingConnects (run es (close s)) + connects (run es (close s))
     \<le> pendingConnects s + connects s \<and>
   (ws s = Some w \<longrightarrow> outputs (close s) = outputs s @ [WsCloseCall w]) \<and>
   (status (run es (close s)) w \<noteq> TClosed \<longrightarrow>
      readyState (step (WsClose w) (run es (close s))) = Some WS_CLOSED \<and>
      ws (step (WsClose w) (run es (close s))) = None \<and>
      outputs (step (WsClose w) (run es (close s))) =
        outputs (run es (close s)) @
          triggered OnClose
            (CloseEvt True (isRetrying (run es (close s))) (isRefreshing (run es (close s))))
            (run es (close s)) \<and>
      timers (step (WsClose w) (run es (close s))) = cleared (run es (close s))) \<and>
   (readyState (run es0 (RcSocket u p)) = Some WS_CLOSED \<longrightarrow>
      readyState (run es (run es0 (RcSocket u p))) = Some WS_CLOSED \<and>
      ws (run es (run es0 (RcSocket u p))) = None \<and>
      connects (run es (run es0 (RcSocket u p))) = connects (run es0 (RcSocket u p)))"
proof -
  have f: "wasForced (close s)" by (simp add: close_def priv_close_def emit_def split: option.splits)
  have k: "pendingConnects (close s) + connects (close s) = pendingConnects s + connects s"
    by (simp add: close_def priv_close_def emit_def pendingConnects_def connects_def
        split: option.splits)
  have a: "wasForced (run es (close s))"
    and b: "pendingConnects (run es (close s)) + connects (run es (close s))
      \<le> pendingConnects s + connects s"
    using forced_run[OF f, of es] k by simp_all
  have c: "ws s = Some w \<longrightarrow> outputs (close s) = outputs s @ [WsCloseCall w]"
    by (simp add: close_def priv_close_def emit_def)
  have inv: "inv_conn (run es0 (RcSocket u p))" by (rule inv_conn_run[OF inv_conn_init])
  show ?thesis
    using a b c forced_close_signal[OF a, of w] closed_run[OF inv, of es] by blast
qed

text \<open>
  C2 fails on the code. \<^verbatim>\<open>close()\<close> sets \<^verbatim>\<open>wasForced\<close> and calls \<^verbatim>\<open>_close\<close>, which
  does nothing when there is no socket; the handle of the reconnect timer is never kept and
  \<^verbatim>\<open>_connect\<close> does not look at \<^verbatim>\<open>wasForced\<close>. Called during the reconnect wait,
  \<^verbatim>\<open>close()\<close> leaves the connect timer pending and the state \<^verbatim>\<open>CONNECTING\<close>; when the
  timer fires, a second socket is made and \<^verbatim>\<open>onconnecting\<close> is notified again. Called
  while the first socket is live, the same \<^verbatim>\<open>close()\<close> is followed by no connect at
  all.
\<close>

theorem close_in_wait_connects:
  "timers (run [SetHandler OnConnecting True, Fire 0, WsClose 0] (RcSocket ''ws://host'' [])) =
     [\<lparr>tid = 2, due = 1000, act = Connect\<rparr>] \<and>
   ws (run [SetHandler OnConnecting True, Fire 0, WsClose 0] (RcSocket ''ws://host'' [])) = None \<and>
   timers (run [SetHandler OnConnecting True, Fire 0, WsClose 0, Close]
             (RcSocket ''ws://host'' [])) =
     [\<lparr>tid = 2, due = 1000, act = Connect\<rparr>] \<and>
   wasForced (run [SetHandler OnConnecting True, Fire 0, WsClose 0, Close]
                (RcSocket ''ws://host'' [])) \<and>
   readyState (run [SetHandler OnConnecting True, Fire 0, WsClose 0, Close]
                 (RcSocket ''ws://host'' [])) = Some WS_CONNECTING \<and>
   outputs (run [SetHandler OnConnecting True, Fire 0, WsClose 0, Close]
              (RcSocket ''ws://host'' [])) =
     [WsNew 0 0, Handler OnConnecting NoEvt] \<and>
   outputs (run [SetHandler OnConnecting True, Fire 0, WsClose 0, Close, Elapse 1000, Fire 2]
              (RcSocket ''ws://host'' [])) =
     [WsNew 0 0, Handler OnConnecting NoEvt, WsNew 1 1000, Handler OnConnecting NoEvt] \<and>
   ws (run [SetHandler OnConnecting True, Fire 0, WsClose 0, Close, Elapse 1000, Fire 2]
         (RcSocket ''ws://host'' [])) = Some 1 \<and>
   outputs (run [SetHandler OnConnecting True, Fire 0, Close, WsClose 0, Elapse 5000]
              (RcSocket ''ws://host'' [])) =
     [WsNew 0 0, Handler OnConnecting NoEvt, WsCloseCall 0] \<and>
   timers (run [SetHandler OnConnecting True, Fire 0, Close, WsClose 0, Elapse 5000]
             (RcSocket ''ws://host'' [])) = []"
  by (simp add: evals cleared_def reconnects_def)

subsection \<open>Flushing the queue\<close>

text \<open>
  The schedule of a flush and its outcome when nothing disturbs it. On the open signal a
  timer is armed for every queued entry; the timer of the oldest entry is due one delay
  after the open, the next one two delays, and so on. When these timers fire in turn while
  the socket stays, the socket receives the queued payloads oldest first, each once, and
  the queue is empty afterwards.
\<close>

lemma find_flush_timer:
  assumes "\<forall>t \<in> set R. tid t < h"
  shows "find (\<lambda>t. tid t = h + k) (R @ flush_timer h t0 d n k # map (flush_timer h t0 d n) [Suc k..<n])
         = Some (flush_timer h t0 d n k)"
  using assms by (induction R) (auto simp: flush_timer_def)

lemma filter_flush_timer:
  assumes "\<forall>t \<in> set R. tid t < h"
  shows "filter (\<lambda>t. tid t \<noteq> h + k)
           (R @ flush_timer h t0 d n k # map (flush_timer h t0 d n) [Suc k..<n])
         = R @ map (flush_timer h t0 d n) [Suc k..<n]"
proof -
  have r: "filter (\<lambda>t. tid t \<noteq> h + k) R = R"
    using assms by (induction R) auto
  have m: "filter (\<lambda>t. tid t \<noteq> h + k) (map (flush_timer h t0 d n) [Suc k..<n])
      = map (flush_timer h t0 d n) [Suc k..<n]"
    by (rule filter_True) (auto simp: flush_timer_def)
  show ?thesis by (simp add: r m) (simp add: flush_timer_def)
qed

lemma flush_runs:
  assumes "ws s = Some w" and "truthy (readyState s)"
    and "length (queue s) = m" and "k + m = n"
    and "timers s = R @ map (flush_timer h t0 d n) [k..<n]"
    and "\<forall>t \<in> set R. tid t < h"
    and "now s = t0 + d * k"
  shows "outputs (run (flush_events d h k n) s) = outputs s @ map (WsSend w) (rev (queue s)) \<and>
         queue (run (flush_events d h k n) s) = [] \<and>
         timers (run (flush_events d h k n) s) = R"
  using assms
proof (induction m arbitrary: s k)
  case 0
  then have "k = n" by simp
  then show ?case using 0 by (simp add: flush_events_def)
next
  case (Suc m)
  then have kn: "k < n" by simp
  have up: "[k..<n] = k # [Suc k..<n]" using kn by (simp add: upt_conv_Cons)
  have q: "queue s \<noteq> []" using Suc.prems(3) by auto
  have idx: "n - Suc k = length (queue s) - 1" using Suc.prems(3,4) by simp
  have nth: "js_nth (queue s) (n - Suc k) = last (queue s)"
    using q by (simp add: js_nth_def idx last_conv_nth)
  let ?s0 = "s\<lparr>now := now s + d\<rparr>"
  have tm: "timers s = R @ flush_timer h t0 d n k # map (flush_timer h t0 d n) [Suc k..<n]"
    using Suc.prems(5) up by simp
  define s1 where "s1 = step (Fire (h + k)) ?s0"
  let ?s0' = "s\<lparr>now := now s + d, timers := R @ map (flush_timer h t0 d n) [Suc k..<n]\<rparr>"
  have fd: "find (\<lambda>t. tid t = h + k) (timers ?s0) = Some (flush_timer h t0 d n k)"
    using find_flush_timer[OF Suc.prems(6)] by (simp add: tm)
  have fl: "?s0\<lparr>timers := filter (\<lambda>t. tid t \<noteq> h + k) (timers ?s0)\<rparr> = ?s0'"
    using filter_flush_timer[OF Suc.prems(6), of k t0 d n] by (simp add: tm)
  have du: "due (flush_timer h t0 d n k) \<le> now ?s0"
    using Suc.prems(7) by (simp add: flush_timer_def)
  have ac: "act (flush_timer h t0 d n k) = QueueSend (n - Suc k)"
    by (simp add: flush_timer_def)
  have fr: "fire (h + k) ?s0 = callback (QueueSend (n - Suc k)) ?s0'"
    unfolding fire_def fd using du by (simp only: option.case if_True fl ac)
  have cb: "callback (QueueSend (n - Suc k)) ?s0' =
      s\<lparr>now := now s + d, timers := R @ map (flush_timer h t0 d n) [Suc k..<n],
        outputs := outputs s @ [WsSend w (last (queue s))],
        queue := butlast (queue s)\<rparr>"
    using Suc.prems(1,2) nth by (simp add: send_def emit_def Let_def)
  have s1: "s1 = s\<lparr>now := now s + d, timers := R @ map (flush_timer h t0 d n) [Suc k..<n],
                    outputs := outputs s @ [WsSend w (last (queue s))],
                    queue := butlast (queue s)\<rparr>"
    unfolding s1_def step.simps fr cb ..
  have ev: "flush_events d h k n = Elapse d # Fire (h + k) # flush_events d h (Suc k) n"
    by (simp add: flush_events_def up)
  have r: "run (flush_events d h k n) s = run (flush_events d h (Suc k) n) s1"
    unfolding ev s1_def by simp
  have ih: "outputs (run (flush_events d h (Suc k) n) s1) =
              outputs s1 @ map (WsSend w) (rev (queue s1)) \<and>
            queue (run (flush_events d h (Suc k) n) s1) = [] \<and>
            timers (run (flush_events d h (Suc k) n) s1) = R"
  proof (rule Suc.IH)
    show "ws s1 = Some w" using Suc.prems(1) by (simp add: s1)
    show "truthy (readyState s1)" using Suc.prems(2) by (simp add: s1)
    show "length (queue s1) = m" using Suc.prems(3) by (simp add: s1)
    show "Suc k + m = n" using Suc.prems(4) by simp
    show "timers s1 = R @ map (flush_timer h t0 d n) [Suc k..<n]" by (simp add: s1)
    show "\<forall>t \<in> set R. tid t < h" by (rule Suc.prems(6))
    show "now s1 = t0 + d * Suc k" using Suc.prems(7) by (simp add: s1)
  qed
  have rv: "rev (queue s) = last (queue s) # rev (butlast (queue s))"
    using q by (cases "queue s" rule: rev_cases) simp_all
  have mp: "map (WsSend w) (rev (queue s)) =
      WsSend w (last (queue s)) # map (WsSend w) (rev (butlast (queue s)))"
    by (subst rv) simp
  have o1: "outputs s1 @ map (WsSend w) (rev (queue s1)) = outputs s @ map (WsSend w) (rev (queue s))"
    unfolding mp by (simp add: s1)
  show ?case unfolding r using ih o1 by simp
qed

lemma flush_undisturbed:
  assumes "s = run es (RcSocket u p)" and "status s w = TConnecting" and "\<not> wasForced s"
  shows "timers (step (WsOpen w) s) =
           cleared s @
           map (flush_timer (nextTimer s) (now s) (delay s) (length (queue s)))
             [0..<length (queue s)] \<and>
         outputs (run (flush_events (delay s) (nextTimer s) 0 (length (queue s)))
                   (step (WsOpen w) s)) =
           outputs s @ triggered OnOpen RawEvt s @ map (WsSend w) (pendingQueue s) \<and>
         queue (run (flush_events (delay s) (nextTimer s) 0 (length (queue s)))
                 (step (WsOpen w) s)) = [] \<and>
         timers (run (flush_events (delay s) (nextTimer s) 0 (length (queue s)))
                  (step (WsOpen w) s)) = cleared s"
proof -
  have inv: "inv_conn s" unfolding assms(1) by (rule inv_conn_run[OF inv_conn_init])
  have it: "inv_timers s" unfolding assms(1) by (rule inv_timers_run[OF inv_timers_init])
  have lv: "status s w \<noteq> TClosed" using assms(2) by simp
  have wsw: "ws s = Some w" using inv_conn_live[OF inv, of w] lv by simp
  define s1 where "s1 = step (WsOpen w) s"
  have tm: "timers s1 =
      cleared s @
      map (flush_timer (nextTimer s) (now s) (delay s) (length (queue s))) [0..<length (queue s)]"
    unfolding s1_def using assms(2,3) by (simp add: priv_onopen_eq flush_timer_def)
  have f: "ws s1 = Some w" "truthy (readyState s1)" "length (queue s1) = length (queue s)"
    "now s1 = now s + delay s * 0" "queue s1 = queue s"
    "outputs s1 = outputs s @ triggered OnOpen RawEvt s"
    unfolding s1_def using assms(2,3) wsw by (simp_all add: priv_onopen_eq WS_OPEN_def)
  have fresh: "\<forall>t \<in> set (cleared s). tid t < nextTimer s"
    using it cleared_subset[of s] unfolding inv_timers_def by blast
  have "outputs (run (flush_events (delay s) (nextTimer s) 0 (length (queue s))) s1) =
          outputs s1 @ map (WsSend w) (rev (queue s1)) \<and>
        queue (run (flush_events (delay s) (nextTimer s) 0 (length (queue s))) s1) = [] \<and>
        timers (run (flush_events (delay s) (nextTimer s) 0 (length (queue s))) s1) = cleared s"
    using f(1,2,3) _ tm fresh f(4) by (rule flush_runs) simp
  then show ?thesis unfolding s1_def[symmetric] using tm f(5,6) by (simp add: pendingQueue_def)
qed

text \<open>
  C1 fails on the code. The callback of \<^verbatim>\<open>_delayQueueSend\<close> sends the entry at the index
  it was given when the flush started and then removes the last entry of the array. While
  the socket stays, the two are the same entry. When the socket closes before the timers
  fire, \<^verbatim>\<open>send\<close> puts the entry back at the front, every index moves by one, and the
  entry removed is not the entry sent: with \<open>a\<close> and \<open>b\<close> queued, the queue ends as
  \<open>a, a\<close>, and after the reconnect \<open>a\<close> is sent twice and \<open>b\<close> never.
\<close>

theorem flush_after_drop:
  "queue (run [Send (Data ''a''), Send (Data ''b'')] (RcSocket ''ws://host'' [])) =
     [Data ''b'', Data ''a''] \<and>
   timers (run [Send (Data ''a''), Send (Data ''b''), Fire 0, WsOpen 0]
       (RcSocket ''ws://host'' [])) =
     [\<lparr>tid = 2, due = 100, act = QueueSend 1\<rparr>, \<lparr>tid = 3, due = 200, act = QueueSend 0\<rparr>] \<and>
   queue (run [Send (Data ''a''), Send (Data ''b''), Fire 0, WsOpen 0, WsClose 0,
       Elapse 100, Fire 2, Elapse 100, Fire 3] (RcSocket ''ws://host'' [])) =
     [Data ''a'', Data ''a''] \<and>
   outputs (run [Send (Data ''a''), Send (Data ''b''), Fire 0, WsOpen 0, WsClose 0,
       Elapse 100, Fire 2, Elapse 100, Fire 3, Elapse 800, Fire 4, WsOpen 1,
       Elapse 100, Fire 6, Elapse 100, Fire 7] (RcSocket ''ws://host'' [])) =
     [WsNew 0 0, WsNew 1 1000, WsSend 1 (Data ''a''), WsSend 1 (Data ''a'')] \<and>
   queue (run [Send (Data ''a''), Send (Data ''b''), Fire 0, WsOpen 0, WsClose 0,
       Elapse 100, Fire 2, Elapse 100, Fire 3, Elapse 800, Fire 4, WsOpen 1,
       Elapse 100, Fire 6, Elapse 100, Fire 7] (RcSocket ''ws://host'' [])) = []"
  by (simp add: evals cleared_def reconnects_def)

end
